theory Spec2Isabelle
  imports Main "HOL-Library.Signed_Division"
begin

unbundle bit_operations_syntax

section \<open>The heap allocator of myHeap.c\<close>

text \<open>
  The allocator manages one region of memory as a sequence of blocks. Every block starts
  with a header word \<open>size_status\<close> (a C \<open>int\<close>): the block size, a multiple of 8, plus
  the a-bit (bit 0, block allocated) and the p-bit (bit 1, previous block allocated). A free
  block ends with a footer word holding its size. The word after the last block holds 1 (the
  end mark).

  Memory is modelled as a store from byte addresses to the \<open>int\<close> kept in the four bytes
  at that address; every access of the program is to such a word. Addresses and the values of
  C \<open>int\<close> variables are integers. Signed overflow is undefined in C; where the program
  adds to a value that its caller chooses (the request of \<open>myAlloc\<close>, the size of \<open>myInit\<close>)
  the model wraps the result to 32 bits (\<open>wrap32\<close>), as the compiled code does. All other
  arithmetic is on header words, which stay below \<open>2^31\<close> on a heap whose \<open>allocsize\<close> is at
  most \<open>2^31 - 13\<close>; the invariant \<open>heap_inv\<close> below bounds it so. The C operator \<open>%\<close>
  truncates towards zero, which is \<open>smod\<close>. The program is written for a target whose pointers
  are as wide as \<open>int\<close> (it casts a pointer to \<open>int\<close> in \<open>myFree\<close>), so
  \<open>sizeof(blockHeader*)\<close> is 4, as \<open>sizeof(blockHeader)\<close> is.
\<close>

type_synonym addr = int
type_synonym memory = "addr \<Rightarrow> int"

text \<open>A 32-bit \<open>int\<close> result, wrapped around in two's complement.\<close>

definition wrap32 :: "int \<Rightarrow> int" where
  "wrap32 x = (x + 2147483648) mod 4294967296 - 2147483648"

definition NULL :: addr where
  "NULL = 0"

definition sizeof_blockHeader :: int where
  "sizeof_blockHeader = 4"

definition sizeof_blockHeader_ptr :: int where
  "sizeof_blockHeader_ptr = 4"

text \<open>The cast \<open>(int)ptr\<close> of a 32-bit pointer: addresses from \<open>2^31\<close> on become negative.\<close>

definition int_of_ptr :: "addr \<Rightarrow> int" where
  "int_of_ptr p = (if p < 2147483648 then p else p - 4294967296)"

text \<open>
  The globals of the program: \<open>heapStart\<close>, \<open>allocsize\<close>, the static \<open>allocated_once\<close> of
  \<open>myInit\<close>, and the memory.
\<close>

record heap =
  heapStart :: addr
  allocsize :: int
  allocated_once :: int
  mem :: memory

subsection \<open>myAlloc\<close>

text \<open>
  The \<open>while\<close> loop of \<open>myAlloc\<close>, with its variables \<open>current\<close>, \<open>flag\<close>, \<open>best\<close> and
  \<open>best_size\<close> (\<open>current_size\<close> is assigned at the top of every round). The loop does not
  write to memory. On a memory without end mark it may run forever: the result is then
  \<open>None\<close>.
\<close>

partial_function (option) alloc_loop ::
  "memory \<Rightarrow> int \<Rightarrow> addr \<Rightarrow> int \<Rightarrow> addr \<Rightarrow> int \<Rightarrow> (int \<times> addr \<times> int) option" where
  "alloc_loop m size1 current flag best best_size =
     (if m current \<noteq> 1 then
        (let current_size = m current - m current smod 8 in
         if m current smod 2 \<noteq> 0 \<or> current_size < size1 then
           alloc_loop m size1 (current + current_size) flag best best_size
         else
           (let (flag1, best1, best_size1) =
                  (if flag = 0 then (1, current, current_size) else (flag, best, best_size));
                (best_size2, best2) =
                  (if current_size < best_size1 then (current_size, current)
                   else (best_size1, best1))
            in alloc_loop m size1 (current + current_size) flag1 best2 best_size2))
      else Some (flag, best, best_size))"

text \<open>The block size computed from the request: 4 bytes of header, rounded up to 8.\<close>

definition needed_size :: "int \<Rightarrow> int" where
  "needed_size size0 =
     (let size1 = wrap32 (size0 + 4) in
      if size1 smod 8 \<noteq> 0 then wrap32 (wrap32 (size1 + 8) - (size1 smod 8)) else size1)"

definition myAlloc :: "heap \<Rightarrow> int \<Rightarrow> (addr \<times> heap) option" where
  "myAlloc s size0 =
     (if size0 \<le> 0 \<or> size0 > allocsize s then Some (NULL, s)
      else
        (let size1 = needed_size size0 in
         case alloc_loop (mem s) size1 (heapStart s) 0 NULL 0 of
           None \<Rightarrow> None
         | Some (flag, best, best_size) \<Rightarrow>
             if flag = 0 then Some (NULL, s)
             else if best_size = size1 then
               (let m1 = (mem s)(best := mem s best + 1);
                    new = best + best_size;
                    m2 = (if m1 new \<noteq> 1 then m1(new := m1 new + 2) else m1)
                in Some (best + sizeof_blockHeader, s\<lparr>mem := m2\<rparr>))
             else
               (let new = best + size1;
                    m1 = (mem s)(best := mem s best + (size1 - best_size + 1));
                    m2 = m1(new := 2 + 0 + (best_size - size1));
                    new_footer = new + best_size - size1 - sizeof_blockHeader;
                    m3 = m2(new_footer := best_size - size1)
                in Some (best + sizeof_blockHeader, s\<lparr>mem := m3\<rparr>))))"

subsection \<open>myFree\<close>

definition myFree :: "heap \<Rightarrow> addr \<Rightarrow> int \<times> heap" where
  "myFree s ptr =
     (if ptr = NULL then (- 1, s)
      else if int_of_ptr ptr smod 8 \<noteq> 0 then (- 1, s)
      else if ptr < heapStart s \<or> ptr > heapStart s + allocsize s then (- 1, s)
      else
        (let header = ptr - sizeof_blockHeader in
         if mem s header smod 2 = 0 then (- 1, s)
         else
           (let m1 = (mem s)(header := mem s header - 1);
                block_size = m1 header - m1 header smod 8;
                new = header + block_size;
                m2 = (if m1 new \<noteq> 1 then
                        (let p = m1 new AND 2 in m1(new := m1 new - p))
                      else m1);
                footer = header + block_size - sizeof_blockHeader;
                m3 = m2(footer := block_size)
            in (0, s\<lparr>mem := m3\<rparr>))))"

subsection \<open>coalesce\<close>

text \<open>
  The \<open>while\<close> loop of \<open>coalesce\<close>, with its variables \<open>ptr\<close> and \<open>ptr_size\<close> and the
  memory it writes to.
\<close>

partial_function (option) coalesce_loop ::
  "memory \<Rightarrow> addr \<Rightarrow> int \<Rightarrow> memory option" where
  "coalesce_loop m ptr ptr_size =
     (if m ptr \<noteq> 1 then
        (let ptr_size1 = m ptr - m ptr smod 8 in
         if m ptr AND 1 \<noteq> 0 then coalesce_loop m (ptr + ptr_size1) ptr_size1
         else
           (let next = ptr + ptr_size1 in
            if m next AND 1 \<noteq> 0 then coalesce_loop m next ptr_size1
            else
              (let next_size = m next - m next smod 8;
                   nextFooter = next + next_size - sizeof_blockHeader_ptr;
                   m1 = m(ptr := m ptr + next_size);
                   m2 = m1(nextFooter := m1 nextFooter + ptr_size1)
               in coalesce_loop m2 ptr (ptr_size1 + next_size))))
      else Some m)"

definition coalesce :: "heap \<Rightarrow> (int \<times> heap) option" where
  "coalesce s =
     (case coalesce_loop (mem s) (heapStart s) 0 of
        None \<Rightarrow> None
      | Some m \<Rightarrow> Some (1, s\<lparr>mem := m\<rparr>))"

subsection \<open>myInit\<close>

text \<open>
  What \<open>myInit\<close> gets from the operating system: the page size, the result of \<open>open\<close> on
  \<open>/dev/zero\<close> and the result of \<open>mmap\<close>, which is \<open>MAP_FAILED\<close> (the pointer \<open>(void*)-1\<close>)
  or the address of a zero-filled region.
\<close>

record region_provider =
  os_pagesize :: int
  os_open :: int
  os_mmap :: addr

definition MAP_FAILED :: addr where
  "MAP_FAILED = 4294967295"

definition myInit :: "region_provider \<Rightarrow> heap \<Rightarrow> int \<Rightarrow> int \<times> heap" where
  "myInit os s sizeOfRegion =
     (if 0 \<noteq> allocated_once s then (- 1, s)
      else if sizeOfRegion \<le> 0 then (- 1, s)
      else
        (let pagesize = os_pagesize os;
             padsize = sizeOfRegion smod pagesize;
             padsize = (pagesize - padsize) smod pagesize;
             s1 = s\<lparr>allocsize := wrap32 (sizeOfRegion + padsize)\<rparr>;
             fd = os_open os
         in if - 1 = fd then (- 1, s1)
            else
              (let mmap_ptr = os_mmap os in
               if MAP_FAILED = mmap_ptr then (- 1, s1\<lparr>allocated_once := 0\<rparr>)
               else
                 (let zeroed = (\<lambda>a. if mmap_ptr \<le> a \<and> a < mmap_ptr + allocsize s1
                                      then 0 else mem s1 a);
                      s2 = s1\<lparr>allocated_once := 1, mem := zeroed\<rparr>;
                      s3 = s2\<lparr>allocsize := wrap32 (allocsize s2 - 8)\<rparr>;
                      s4 = s3\<lparr>heapStart := mmap_ptr + 1 * sizeof_blockHeader\<rparr>;
                      endMark = heapStart s4 + allocsize s4;
                      s5 = s4\<lparr>mem := (mem s4)(endMark := 1)\<rparr>;
                      s6 = s5\<lparr>mem := (mem s5)(heapStart s5 := allocsize s5)\<rparr>;
                      s7 = s6\<lparr>mem := (mem s6)(heapStart s6 := mem s6 (heapStart s6) + 2)\<rparr>;
                      footer = heapStart s7 + allocsize s7 - 4;
                      s8 = s7\<lparr>mem := (mem s7)(footer := allocsize s7)\<rparr>
                  in (0, s8)))))"

section \<open>Block lists\<close>

text \<open>
  The fields of a header word: the size (the word without its three low bits), the a-bit and
  the p-bit. A valid header holds a positive size and has bit 2 clear.
\<close>

definition bsize :: "int \<Rightarrow> int" where
  "bsize h = h - h mod 8"

definition is_alloc :: "int \<Rightarrow> bool" where
  "is_alloc h = (h mod 2 = 1)"

definition prev_alloc :: "int \<Rightarrow> bool" where
  "prev_alloc h = (2 \<le> h mod 4)"

definition hdr_ok :: "int \<Rightarrow> bool" where
  "hdr_ok h = (8 \<le> h \<and> h mod 8 < 4)"

text \<open>
  A block with header \<open>h\<close> at address \<open>a\<close>, after a block whose a-bit is \<open>p\<close>: the header
  is valid, its p-bit is \<open>p\<close>, and a free block has its size in its last word. The other
  words of the block, the payload, are not constrained.
\<close>

definition block_at :: "memory \<Rightarrow> addr \<Rightarrow> bool \<Rightarrow> int \<Rightarrow> bool" where
  "block_at m a p h =
     (m a = h \<and> hdr_ok h \<and> prev_alloc h = p \<and>
      (\<not> is_alloc h \<longrightarrow> m (a + bsize h - 4) = bsize h))"

text \<open>The blocks with headers \<open>hs\<close> lie one after the other from \<open>a\<close> to \<open>e\<close>.\<close>

fun chain :: "memory \<Rightarrow> addr \<Rightarrow> bool \<Rightarrow> int list \<Rightarrow> addr \<Rightarrow> bool" where
  "chain m a p [] e = (a = e)"
| "chain m a p (h # hs) e = (block_at m a p h \<and> chain m (a + bsize h) (is_alloc h) hs e)"

definition total :: "int list \<Rightarrow> int" where
  "total hs = sum_list (map bsize hs)"

fun lastp :: "bool \<Rightarrow> int list \<Rightarrow> bool" where
  "lastp p [] = p"
| "lastp p (h # hs) = lastp (is_alloc h) hs"

text \<open>
  The region: it starts at an address that is 4 modulo 8 (so that payloads are multiples of
  8), its size fits an \<open>int\<close> with room for the arithmetic of \<open>myAlloc\<close>, and it ends inside the
  32-bit address space.
\<close>

definition region_ok :: "heap \<Rightarrow> bool" where
  "region_ok s =
     (0 \<le> heapStart s \<and> heapStart s mod 8 = 4 \<and> allocsize s \<le> 2147483635 \<and>
      heapStart s + allocsize s < 4294967296)"

text \<open>
  The well-formed heap with block list \<open>hs\<close>: the blocks fill the region from \<open>heapStart\<close>,
  the first block has its p-bit set, and the end mark follows the last block.
\<close>

definition heap_inv :: "heap \<Rightarrow> int list \<Rightarrow> bool" where
  "heap_inv s hs =
     (region_ok s \<and>
      chain (mem s) (heapStart s) True hs (heapStart s + allocsize s) \<and>
      mem s (heapStart s + allocsize s) = 1)"

fun scan :: "int \<Rightarrow> addr \<Rightarrow> int list \<Rightarrow> int \<Rightarrow> addr \<Rightarrow> int \<Rightarrow> int \<times> addr \<times> int" where
  "scan sz a [] flag best bs = (flag, best, bs)"
| "scan sz a (h # hs) flag best bs =
     (if is_alloc h \<or> bsize h < sz then scan sz (a + bsize h) hs flag best bs
      else if flag = 0 then scan sz (a + bsize h) hs 1 a (bsize h)
      else if bsize h < bs then scan sz (a + bsize h) hs flag a (bsize h)
      else scan sz (a + bsize h) hs flag best bs)"

definition fits :: "int \<Rightarrow> int \<Rightarrow> bool" where
  "fits sz h = (\<not> is_alloc h \<and> sz \<le> bsize h)"

definition best_fit :: "int \<Rightarrow> int list \<Rightarrow> nat \<Rightarrow> bool" where
  "best_fit sz hs i =
     (i < length hs \<and> fits sz (hs ! i) \<and>
      (\<forall>j < length hs. fits sz (hs ! j) \<longrightarrow>
         bsize (hs ! i) \<le> bsize (hs ! j) \<and> (bsize (hs ! j) = bsize (hs ! i) \<longrightarrow> i \<le> j)))"

definition block_addr :: "addr \<Rightarrow> int list \<Rightarrow> nat \<Rightarrow> addr" where
  "block_addr a hs i = a + total (take i hs)"

definition scanned :: "int \<Rightarrow> addr \<Rightarrow> int list \<Rightarrow> int \<times> addr \<times> int \<Rightarrow> bool" where
  "scanned sz a hs st =
     (case st of (flag, best, bs) \<Rightarrow>
        (if flag = 0 then \<forall>j < length hs. \<not> fits sz (hs ! j)
         else \<exists>i. best_fit sz hs i \<and> best = block_addr a hs i \<and> bs = bsize (hs ! i)))"

fun set_prev :: "int list \<Rightarrow> int list" where
  "set_prev [] = []"
| "set_prev (g # gs) = (g + 2) # gs"

fun clear_prev :: "int list \<Rightarrow> int list" where
  "clear_prev [] = []"
| "clear_prev (g # gs) = (g - (g AND 2)) # gs"

fun merge :: "int list \<Rightarrow> int list" where
  "merge [] = []"
| "merge [h] = [h]"
| "merge (h1 # h2 # hs) =
     (if is_alloc h1 \<or> is_alloc h2 then h1 # merge (h2 # hs)
      else merge ((h1 + bsize h2) # hs))"

fun touched :: "addr \<Rightarrow> int list \<Rightarrow> addr set" where
  "touched a [] = {}"
| "touched a [h] = {}"
| "touched a (h1 # h2 # hs) =
     (if is_alloc h1 \<or> is_alloc h2 then touched (a + bsize h1) (h2 # hs)
      else {a, a + bsize h1 + bsize h2 - 4} \<union> touched a ((h1 + bsize h2) # hs))"

definition place :: "int \<Rightarrow> nat \<Rightarrow> int list \<Rightarrow> int list" where
  "place sz i hs =
     (let h = hs ! i in
      if bsize h = sz then take i hs @ (h + 1) # set_prev (drop (Suc i) hs)
      else take i hs @ (h + (sz - bsize h + 1)) # (2 + 0 + (bsize h - sz)) # drop (Suc i) hs)"

definition example_heap :: heap where
  "example_heap =
     \<lparr>heapStart = 4, allocsize = 128, allocated_once = 1,
      mem = (\<lambda>_. 0)(4 := 42, 40 := 40, 44 := 24, 64 := 24, 68 := 64, 128 := 64, 132 := 1)\<rparr>"

definition example_heap_64 :: heap where
  "example_heap_64 =
     \<lparr>heapStart = 4, allocsize = 64, allocated_once = 1,
      mem = (\<lambda>_. 0)(4 := 66, 64 := 64, 68 := 1)\<rparr>"

text \<open>
  A heap of 64 bytes after one allocation of 24 bytes: the caller has stored 1 in the second
  word of its payload.
\<close>

definition example_heap_user :: heap where
  "example_heap_user =
     \<lparr>heapStart = 4, allocsize = 64, allocated_once = 1,
      mem = (\<lambda>_. 0)(4 := 27, 12 := 1, 28 := 42, 64 := 40, 68 := 1)\<rparr>"

text \<open>The globals before \<open>myInit\<close>, and an operating system whose \<open>mmap\<close> fails.\<close>

definition initial_heap :: heap where
  "initial_heap = \<lparr>heapStart = NULL, allocsize = 0, allocated_once = 0, mem = (\<lambda>_. 0)\<rparr>"

definition os_no_memory :: region_provider where
  "os_no_memory = \<lparr>os_pagesize = 4096, os_open = 3, os_mmap = MAP_FAILED\<rparr>"

text \<open>
  The coalescer as the specification words it, on the list of headers: every maximal run of
  consecutive free blocks becomes one free block; its size is the sum of the sizes of the
  run, its p-bit is that of the first block of the run, its a-bit is clear. Allocated blocks
  stay as they are.
\<close>

definition mk_header :: "int \<Rightarrow> bool \<Rightarrow> bool \<Rightarrow> int" where
  "mk_header sz p a = sz + (if p then 2 else 0) + (if a then 1 else 0)"

definition is_free :: "int \<Rightarrow> bool" where
  "is_free h = (\<not> is_alloc h)"

function coalesced :: "int list \<Rightarrow> int list" where
  "coalesced [] = []"
| "coalesced (h # hs) =
     (if is_alloc h then h # coalesced hs
      else mk_header (bsize h + total (takeWhile is_free hs)) (prev_alloc h) False
           # coalesced (dropWhile is_free hs))"
  by pat_completeness auto
termination
  by (relation "measure length") (auto simp: length_dropWhile_le less_Suc_eq_le)

definition example_heap_48 :: heap where
  "example_heap_48 =
     \<lparr>heapStart = 4, allocsize = 48, allocated_once = 1,
      mem = (\<lambda>_. 0)(4 := 18, 16 := 16, 20 := 24, 40 := 24, 44 := 8, 48 := 8, 52 := 1)\<rparr>"

text \<open>
  The region provider behaves as the operating system does: the page size is a multiple of 8
  greater than 8, \<open>mmap\<close> returns a page-aligned address that is not negative, and the
  request rounded up to the page size fits an \<open>int\<close> and the mapped region the 32-bit address
  space.
\<close>

definition page_provider :: "region_provider \<Rightarrow> int \<Rightarrow> bool" where
  "page_provider os n =
     (8 < os_pagesize os \<and> os_pagesize os mod 8 = 0 \<and>
      0 \<le> os_mmap os \<and> os_mmap os mod os_pagesize os = 0 \<and>
      n + os_pagesize os \<le> 2147483648 \<and> os_mmap os + n + os_pagesize os \<le> 4294967296)"

definition os_4096 :: region_provider where
  "os_4096 = \<lparr>os_pagesize = 4096, os_open = 3, os_mmap = 8192\<rparr>"

definition fresh_heap_4096 :: heap where
  "fresh_heap_4096 =
     \<lparr>heapStart = 8196, allocsize = 4088, allocated_once = 1,
      mem = (\<lambda>_. 0)(12284 := 1, 8196 := 4090, 12280 := 4088)\<rparr>"

section \<open>Lemmas\<close>

lemma smod8: "0 \<le> (h::int) \<Longrightarrow> h smod 8 = h mod 8"
  by (simp add: signed_modulo_int_def sgn_if)

lemma smod2: "0 \<le> (h::int) \<Longrightarrow> h smod 2 = h mod 2"
  by (simp add: signed_modulo_int_def sgn_if)

lemma smod8_zero: "((h::int) smod 8 = 0) = (h mod 8 = 0)"
  by (auto simp add: signed_modulo_int_def sgn_if zmod_zminus1_eq_if split: if_splits)

lemma smod2_zero: "((h::int) smod 2 = 0) = (h mod 2 = 0)"
  by (auto simp add: signed_modulo_int_def sgn_if zmod_zminus1_eq_if split: if_splits)

lemma and1: "(h::int) AND 1 = h mod 2"
  by (simp add: and_one_eq)

lemma and2_div: "(h::int) AND 2 = 2 * ((h div 2) mod 2)"
proof -
  have "h AND 2 = of_bool (odd h \<and> odd (2::int)) + 2 * ((h div 2) AND (2 div 2))"
    by (rule and_int_rec)
  then show ?thesis by (simp add: and_one_eq)
qed

lemma and2: "(h::int) AND 2 = (if 2 \<le> h mod 4 then 2 else 0)"
  unfolding and2_div by presburger

lemma int_of_ptr_aligned: "(int_of_ptr p smod 8 = 0) = (p mod 8 = 0)"
  unfolding int_of_ptr_def smod8_zero by presburger

lemma bsize_mod8 [simp]: "bsize h mod 8 = 0"
  unfolding bsize_def by presburger

lemma hdr_ok_bsize: "hdr_ok h \<Longrightarrow> 8 \<le> bsize h"
  unfolding hdr_ok_def bsize_def by presburger

lemma hdr_ok_not_end: "hdr_ok h \<Longrightarrow> h \<noteq> 1"
  unfolding hdr_ok_def by simp

lemma hdr_ok_smod8: "hdr_ok h \<Longrightarrow> h - h smod 8 = bsize h"
  unfolding hdr_ok_def bsize_def by (simp add: smod8)

lemma hdr_ok_smod2: "hdr_ok h \<Longrightarrow> (h smod 2 \<noteq> 0) = is_alloc h"
  unfolding hdr_ok_def is_alloc_def by (simp add: smod2)

lemma and1_alloc: "(h AND 1 \<noteq> 0) = is_alloc h"
  unfolding is_alloc_def and1 by presburger

lemma total_Nil [simp]: "total [] = 0"
  by (simp add: total_def)

lemma total_Cons [simp]: "total (h # hs) = bsize h + total hs"
  by (simp add: total_def)

lemma total_append [simp]: "total (xs @ ys) = total xs + total ys"
  by (simp add: total_def)

lemma lastp_append [simp]: "lastp p (xs @ ys) = lastp (lastp p xs) ys"
  by (induction xs arbitrary: p) simp_all

lemma chain_end: "chain m a p hs e \<Longrightarrow> e = a + total hs"
proof (induction hs arbitrary: a p)
  case Nil
  then show ?case by simp
next
  case (Cons h hs)
  from Cons.prems have "chain m (a + bsize h) (is_alloc h) hs e" by simp
  from Cons.IH [OF this] show ?case by simp
qed

lemma total_nonneg: "list_all hdr_ok hs \<Longrightarrow> 0 \<le> total hs"
  by (induction hs) (auto dest: hdr_ok_bsize)

lemma chain_hdr_ok: "chain m a p hs e \<Longrightarrow> list_all hdr_ok hs"
  by (induction hs arbitrary: a p) (auto simp: block_at_def)

lemma chain_le: "chain m a p hs e \<Longrightarrow> a \<le> e"
  using chain_end [of m a p hs e] total_nonneg [OF chain_hdr_ok, of m a p hs e] by simp

lemma chain_append:
  "chain m a p (xs @ ys) e =
     (chain m a p xs (a + total xs) \<and> chain m (a + total xs) (lastp p xs) ys e)"
proof (induction xs arbitrary: a p)
  case Nil
  then show ?case by simp
next
  case (Cons h xs)
  show ?case
    using Cons.IH [of "a + bsize h" "is_alloc h"] by (simp add: add.assoc)
qed

lemma block_at_cong:
  assumes eq: "\<forall>x. a \<le> x \<and> x < a + bsize h \<longrightarrow> m' x = m x" and b: "block_at m a p h"
  shows "block_at m' a p h"
proof -
  from b have ok: "hdr_ok h" and p: "prev_alloc h = p" and h: "m a = h"
    and f: "\<not> is_alloc h \<longrightarrow> m (a + bsize h - 4) = bsize h"
    unfolding block_at_def by blast+
  from ok have b8: "8 \<le> bsize h" by (rule hdr_ok_bsize)
  have 1: "m' a = m a" using eq b8 by simp
  have 2: "m' (a + bsize h - 4) = m (a + bsize h - 4)" using eq b8 by simp
  show ?thesis
    unfolding block_at_def using 1 2 ok p h f by metis
qed

lemma region_ok_mem [simp]: "region_ok (s\<lparr>mem := m\<rparr>) = region_ok s"
  by (simp add: region_ok_def)

lemma wrap32_id: "- 2147483648 \<le> x \<Longrightarrow> x \<le> 2147483647 \<Longrightarrow> wrap32 x = x"
  by (simp add: wrap32_def)

lemma chain_cong:
  "chain m a p hs e \<Longrightarrow> \<forall>x. a \<le> x \<and> x < e \<longrightarrow> m' x = m x \<Longrightarrow> chain m' a p hs e"
proof (induction hs arbitrary: a p)
  case Nil
  then show ?case by simp
next
  case (Cons h hs)
  from Cons.prems(1) have b: "block_at m a p h" and c: "chain m (a + bsize h) (is_alloc h) hs e"
    by simp_all
  from b have "hdr_ok h" by (simp add: block_at_def)
  then have b8: "8 \<le> bsize h" by (rule hdr_ok_bsize)
  from c have le: "a + bsize h \<le> e" by (rule chain_le)
  have "\<forall>x. a \<le> x \<and> x < a + bsize h \<longrightarrow> m' x = m x"
  proof (intro allI impI)
    fix x assume "a \<le> x \<and> x < a + bsize h"
    with le have "a \<le> x \<and> x < e" by linarith
    with Cons.prems(2) show "m' x = m x" by blast
  qed
  then have "block_at m' a p h" using b by (rule block_at_cong)
  moreover have "\<forall>x. a + bsize h \<le> x \<and> x < e \<longrightarrow> m' x = m x"
  proof (intro allI impI)
    fix x assume "a + bsize h \<le> x \<and> x < e"
    with b8 have "a \<le> x \<and> x < e" by linarith
    with Cons.prems(2) show "m' x = m x" by blast
  qed
  then have "chain m' (a + bsize h) (is_alloc h) hs e" by (rule Cons.IH [OF c])
  ultimately show ?case by simp
qed

lemma alloc_loop_chain:
  "chain m a p hs e \<Longrightarrow> m e = 1 \<Longrightarrow>
   alloc_loop m sz a flag best bs = Some (scan sz a hs flag best bs)"
proof (induction hs arbitrary: a p flag best bs)
  case Nil
  then show ?case by (subst alloc_loop.simps) simp
next
  case (Cons h hs)
  from Cons.prems(1) have h: "m a = h" and ok: "hdr_ok h"
    and c: "chain m (a + bsize h) (is_alloc h) hs e"
    by (simp_all add: block_at_def)
  note IH = Cons.IH [OF c Cons.prems(2)]
  show ?case
    by (subst alloc_loop.simps)
       (simp add: h hdr_ok_not_end [OF ok] hdr_ok_smod8 [OF ok] hdr_ok_smod2 [OF ok] IH Let_def)
qed

lemma scanned_skip:
  "\<not> fits sz h \<Longrightarrow> scanned sz a pre st \<Longrightarrow> scanned sz a (pre @ [h]) st"
  unfolding scanned_def best_fit_def block_addr_def
  by (cases st) (auto simp: nth_append less_Suc_eq split: if_splits)

lemma scanned_first:
  "fits sz h \<Longrightarrow> scanned sz a pre (0, best, bs) \<Longrightarrow>
   scanned sz a (pre @ [h]) (1, a + total pre, bsize h)"
  unfolding scanned_def best_fit_def block_addr_def
  by (auto simp: nth_append less_Suc_eq intro!: exI [of _ "length pre"])

lemma scanned_better:
  "fits sz h \<Longrightarrow> flag \<noteq> 0 \<Longrightarrow> bsize h < bs \<Longrightarrow> scanned sz a pre (flag, best, bs) \<Longrightarrow>
   scanned sz a (pre @ [h]) (flag, a + total pre, bsize h)"
  unfolding scanned_def best_fit_def block_addr_def
  by (auto simp: nth_append less_Suc_eq intro!: exI [of _ "length pre"])

lemma scanned_keep:
  "fits sz h \<Longrightarrow> flag \<noteq> 0 \<Longrightarrow> \<not> bsize h < bs \<Longrightarrow> scanned sz a pre (flag, best, bs) \<Longrightarrow>
   scanned sz a (pre @ [h]) (flag, best, bs)"
proof -
  assume h: "fits sz h" and f: "flag \<noteq> 0" and nb: "\<not> bsize h < bs"
    and s: "scanned sz a pre (flag, best, bs)"
  from s f obtain i where i: "best_fit sz pre i" "best = block_addr a pre i" "bs = bsize (pre ! i)"
    by (auto simp: scanned_def)
  from i(1) have il: "i < length pre" by (simp add: best_fit_def)
  have "best_fit sz (pre @ [h]) i"
    unfolding best_fit_def
  proof (intro conjI allI impI)
    show "i < length (pre @ [h])" using il by simp
    show "fits sz ((pre @ [h]) ! i)" using i(1) il by (simp add: best_fit_def nth_append)
  next
    fix j assume j: "j < length (pre @ [h])" "fits sz ((pre @ [h]) ! j)"
    show "bsize ((pre @ [h]) ! i) \<le> bsize ((pre @ [h]) ! j)"
    proof (cases "j < length pre")
      case True
      with j i(1) il show ?thesis by (simp add: best_fit_def nth_append)
    next
      case False
      with j have "j = length pre" by simp
      with nb i(3) il show ?thesis by (simp add: nth_append)
    qed
  next
    fix j assume j: "j < length (pre @ [h])" "fits sz ((pre @ [h]) ! j)"
      "bsize ((pre @ [h]) ! j) = bsize ((pre @ [h]) ! i)"
    show "i \<le> j"
    proof (cases "j < length pre")
      case True
      with j i(1) il show ?thesis by (simp add: best_fit_def nth_append)
    next
      case False
      with il show ?thesis by simp
    qed
  qed
  moreover have "block_addr a (pre @ [h]) i = block_addr a pre i"
    using il by (simp add: block_addr_def)
  moreover have "(pre @ [h]) ! i = pre ! i" using il by (simp add: nth_append)
  ultimately show ?thesis using i f by (auto simp: scanned_def)
qed

lemma scan_scanned:
  "scanned sz a pre (flag, best, bs) \<Longrightarrow>
   scanned sz a (pre @ post) (scan sz (a + total pre) post flag best bs)"
proof (induction post arbitrary: pre flag best bs)
  case Nil
  then show ?case by simp
next
  case (Cons h post)
  have step: "scanned sz a ((pre @ [h]) @ post) (scan sz (a + total (pre @ [h])) post f b s)"
    if "scanned sz a (pre @ [h]) (f, b, s)" for f b s
    using that by (rule Cons.IH)
  have eq: "a + total pre + bsize h = a + total (pre @ [h])" by simp
  show ?case
  proof (cases "fits sz h")
    case False
    then have cond: "is_alloc h \<or> bsize h < sz" by (auto simp: fits_def)
    from False have "scanned sz a (pre @ [h]) (flag, best, bs)"
      using Cons.prems by (rule scanned_skip)
    from step [OF this] show ?thesis
      by (simp add: cond eq del: total_append)
  next
    case True
    then have cond: "\<not> (is_alloc h \<or> bsize h < sz)" by (auto simp: fits_def)
    show ?thesis
    proof (cases "flag = 0")
      case f0: True
      with Cons.prems True have "scanned sz a (pre @ [h]) (1, a + total pre, bsize h)"
        by (simp add: scanned_first)
      from step [OF this] f0 show ?thesis
        by (simp add: cond eq del: total_append)
    next
      case f1: False
      show ?thesis
      proof (cases "bsize h < bs")
        case True
        with Cons.prems \<open>fits sz h\<close> f1
        have "scanned sz a (pre @ [h]) (flag, a + total pre, bsize h)"
          by (simp add: scanned_better)
        from step [OF this] True f1 show ?thesis
          by (simp add: cond eq del: total_append)
      next
        case False
        with Cons.prems \<open>fits sz h\<close> f1
        have "scanned sz a (pre @ [h]) (flag, best, bs)"
          by (simp add: scanned_keep)
        from step [OF this] False f1 show ?thesis
          by (simp add: cond eq del: total_append)
      qed
    qed
  qed
qed

lemma scan_best_fit: "scanned sz a hs (scan sz a hs 0 b0 s0)"
  using scan_scanned [of sz a "[]" 0 b0 s0 hs] by (simp add: scanned_def)

lemma flags_mod8:
  "is_alloc h = ((h mod 8) mod 2 = 1)" "prev_alloc h = (2 \<le> (h mod 8) mod 4)"
  by (simp_all add: is_alloc_def prev_alloc_def mod_mod_cancel)

lemma hdr_ok_split:
  assumes "hdr_ok h"
  shows "\<exists>q r. h = 8 * q + r \<and> 1 \<le> q \<and> (r = 0 \<or> r = 1 \<or> r = 2 \<or> r = 3)"
proof (intro exI conjI)
  show "h = 8 * (h div 8) + h mod 8" by simp
  have "0 \<le> h mod 8" by simp
  with assms show "h mod 8 = 0 \<or> h mod 8 = 1 \<or> h mod 8 = 2 \<or> h mod 8 = 3"
    unfolding hdr_ok_def by linarith
  from assms show "1 \<le> h div 8" unfolding hdr_ok_def by linarith
qed

lemma hdr_set_alloc:
  assumes "hdr_ok h" "\<not> is_alloc h"
  shows "hdr_ok (h + 1) \<and> bsize (h + 1) = bsize h \<and> is_alloc (h + 1) \<and>
         prev_alloc (h + 1) = prev_alloc h"
proof -
  from assms(1) obtain q r where "h = 8 * q + r" "1 \<le> q" "r = 0 \<or> r = 1 \<or> r = 2 \<or> r = 3"
    using hdr_ok_split by blast
  with assms(2) show ?thesis
    by (auto simp: flags_mod8 hdr_ok_def bsize_def)
qed

lemma hdr_clear_alloc:
  assumes "hdr_ok h" "is_alloc h"
  shows "hdr_ok (h - 1) \<and> bsize (h - 1) = bsize h \<and> \<not> is_alloc (h - 1) \<and>
         prev_alloc (h - 1) = prev_alloc h"
proof -
  from assms(1) obtain q r where "h = 8 * q + r" "1 \<le> q" "r = 0 \<or> r = 1 \<or> r = 2 \<or> r = 3"
    using hdr_ok_split by blast
  with assms(2) show ?thesis
    by (auto simp: flags_mod8 hdr_ok_def bsize_def)
qed

lemma hdr_set_prev:
  assumes "hdr_ok g" "\<not> prev_alloc g"
  shows "hdr_ok (g + 2) \<and> bsize (g + 2) = bsize g \<and> is_alloc (g + 2) = is_alloc g \<and>
         prev_alloc (g + 2)"
proof -
  from assms(1) obtain q r where "g = 8 * q + r" "1 \<le> q" "r = 0 \<or> r = 1 \<or> r = 2 \<or> r = 3"
    using hdr_ok_split by blast
  with assms(2) show ?thesis
    by (auto simp: flags_mod8 hdr_ok_def bsize_def)
qed

lemma hdr_clear_prev:
  assumes "hdr_ok g"
  shows "hdr_ok (g - (g AND 2)) \<and> bsize (g - (g AND 2)) = bsize g \<and>
         is_alloc (g - (g AND 2)) = is_alloc g \<and> \<not> prev_alloc (g - (g AND 2))"
proof -
  from assms(1) obtain q r where "g = 8 * q + r" "1 \<le> q" "r = 0 \<or> r = 1 \<or> r = 2 \<or> r = 3"
    using hdr_ok_split by blast
  moreover have "g AND 2 = (if 2 \<le> (g mod 8) mod 4 then 2 else 0)"
    by (simp add: and2 mod_mod_cancel)
  ultimately show ?thesis
    by (auto simp: flags_mod8 hdr_ok_def bsize_def)
qed

text \<open>Rewriting the header of a block, its size kept, and nothing else inside the block.\<close>

lemma block_at_hdr:
  assumes b: "block_at m a p h"
    and h': "hdr_ok h'" "bsize h' = bsize h" "prev_alloc h' = p'" "\<not> is_alloc h' \<longrightarrow> \<not> is_alloc h"
    and m': "m' a = h'" "\<forall>x. a < x \<and> x < a + bsize h \<longrightarrow> m' x = m x"
  shows "block_at m' a p' h'"
proof -
  from b have ok: "hdr_ok h"
    and f: "\<not> is_alloc h \<longrightarrow> m (a + bsize h - 4) = bsize h"
    unfolding block_at_def by blast+
  from ok have b8: "8 \<le> bsize h" by (rule hdr_ok_bsize)
  have 2: "m' (a + bsize h - 4) = m (a + bsize h - 4)" using m'(2) b8 by simp
  show ?thesis
    unfolding block_at_def using 2 h' m'(1) f by metis
qed

text \<open>Setting the p-bit of the block after a block that has become allocated.\<close>

lemma chain_set_prev:
  assumes c: "chain m c False post e" and e: "m e = 1"
  defines "m' \<equiv> (if m c \<noteq> 1 then m(c := m c + 2) else m)"
  shows "chain m' c True (set_prev post) e \<and> m' e = 1 \<and> (\<forall>x. x < c \<longrightarrow> m' x = m x)"
proof (cases post)
  case Nil
  with c e show ?thesis by (simp add: m'_def)
next
  case (Cons g gs)
  with c have b: "block_at m c False g" and r: "chain m (c + bsize g) (is_alloc g) gs e"
    by simp_all
  from b have g: "m c = g" and ok: "hdr_ok g" and np: "\<not> prev_alloc g"
    by (simp_all add: block_at_def)
  from ok have b8: "8 \<le> bsize g" by (rule hdr_ok_bsize)
  from r have le: "c + bsize g \<le> e" by (rule chain_le)
  have m': "m' = m(c := g + 2)" using g hdr_ok_not_end [OF ok] by (simp add: m'_def)
  note hp = hdr_set_prev [OF ok np]
  have "block_at m' c True (g + 2)"
    by (rule block_at_hdr [OF b]) (use hp in \<open>simp_all add: m'\<close>)
  moreover have "chain m' (c + bsize g) (is_alloc g) gs e"
    by (rule chain_cong [OF r]) (use b8 in \<open>simp add: m'\<close>)
  moreover have "m' e = 1" using e le b8 by (simp add: m')
  ultimately show ?thesis using hp Cons by (simp add: m')
qed

text \<open>Clearing the p-bit of the block after a block that has become free.\<close>

lemma chain_clear_prev:
  assumes c: "chain m c q post e" and e: "m e = 1"
  defines "m' \<equiv> (if m c \<noteq> 1 then m(c := m c - (m c AND 2)) else m)"
  shows "chain m' c False (clear_prev post) e \<and> m' e = 1 \<and> (\<forall>x. x < c \<longrightarrow> m' x = m x)"
proof (cases post)
  case Nil
  with c e show ?thesis by (simp add: m'_def)
next
  case (Cons g gs)
  with c have b: "block_at m c q g" and r: "chain m (c + bsize g) (is_alloc g) gs e"
    by simp_all
  from b have g: "m c = g" and ok: "hdr_ok g"
    by (simp_all add: block_at_def)
  from ok have b8: "8 \<le> bsize g" by (rule hdr_ok_bsize)
  from r have le: "c + bsize g \<le> e" by (rule chain_le)
  have m': "m' = m(c := g - (g AND 2))" using g hdr_ok_not_end [OF ok] by (simp add: m'_def)
  note hp = hdr_clear_prev [OF ok]
  have "block_at m' c False (g - (g AND 2))"
    by (rule block_at_hdr [OF b]) (use hp in \<open>simp_all add: m'\<close>)
  moreover have "chain m' (c + bsize g) (is_alloc g) gs e"
    by (rule chain_cong [OF r]) (use b8 in \<open>simp add: m'\<close>)
  moreover have "m' e = 1" using e le b8 by (simp add: m')
  ultimately show ?thesis using hp Cons by (simp add: m')
qed

lemma chain_focus:
  assumes "chain m a p (pre @ h # post) e"
  shows "chain m a p pre (a + total pre)"
    and "block_at m (a + total pre) (lastp p pre) h"
    and "chain m (a + total pre + bsize h) (is_alloc h) post e"
  using assms by (simp_all add: chain_append)

lemma chain_build:
  assumes "chain m a p pre (a + total pre)"
    and "block_at m (a + total pre) (lastp p pre) h"
    and "chain m (a + total pre + bsize h) (is_alloc h) post e"
  shows "chain m a p (pre @ h # post) e"
  using assms by (simp add: chain_append)

lemma block_at_rewrite:
  assumes b: "block_at m a p h"
    and h': "hdr_ok h'" "bsize h' = bsize h" "prev_alloc h' = p'"
    and m': "m' a = h'" "\<not> is_alloc h' \<longrightarrow> m' (a + bsize h - 4) = bsize h"
  shows "block_at m' a p' h'"
  unfolding block_at_def h'(2) using h' m' by blast

lemma alloc_exact_chain:
  assumes c: "chain m a p (pre @ h # post) e" and e: "m e = 1" and f: "\<not> is_alloc h"
  defines "b \<equiv> a + total pre"
  defines "m1 \<equiv> m(b := m b + 1)"
  defines "m2 \<equiv> (if m1 (b + bsize h) \<noteq> 1 then m1(b + bsize h := m1 (b + bsize h) + 2) else m1)"
  shows "chain m2 a p (pre @ (h + 1) # set_prev post) e \<and> m2 e = 1"
proof -
  note cf = chain_focus [OF c, folded b_def]
  from cf(2) have hb: "m b = h" and ok: "hdr_ok h" by (simp_all add: block_at_def)
  from ok have b8: "8 \<le> bsize h" by (rule hdr_ok_bsize)
  from cf(3) have le: "b + bsize h \<le> e" by (rule chain_le)
  note ha = hdr_set_alloc [OF ok f]
  have "chain m1 (b + bsize h) False post e"
    by (rule chain_cong [OF cf(3) [unfolded f [THEN eq_False [THEN iffD2]]]]) (use b8 in \<open>simp add: m1_def\<close>)
  moreover have "m1 e = 1" using e le b8 by (simp add: m1_def)
  ultimately have sp: "chain m2 (b + bsize h) True (set_prev post) e" "m2 e = 1"
    "\<forall>x. x < b + bsize h \<longrightarrow> m2 x = m1 x"
    unfolding m2_def using chain_set_prev [of m1 "b + bsize h" post e] by blast+
  have low: "m2 x = m x" if "x < b + bsize h" "x \<noteq> b" for x
    using that sp(3) by (simp add: m1_def)
  have "block_at m2 b (lastp p pre) (h + 1)"
  proof (rule block_at_hdr [OF cf(2)])
    show "m2 b = h + 1" using sp(3) b8 hb by (simp add: m1_def)
    show "prev_alloc (h + 1) = lastp p pre" using ha cf(2) by (simp add: block_at_def)
    show "\<forall>x. b < x \<and> x < b + bsize h \<longrightarrow> m2 x = m x" using low by simp
  qed (use ha in simp_all)
  moreover have "chain m2 a p pre b"
    by (rule chain_cong [OF cf(1)]) (use low b8 in auto)
  ultimately have "chain m2 a p (pre @ (h + 1) # set_prev post) e"
    using sp(1) ha by (intro chain_build) (simp_all add: b_def)
  with sp(2) show ?thesis by simp
qed


lemma hdr_split_alloc:
  assumes "hdr_ok h" "\<not> is_alloc h" "8 \<le> sz" "sz mod 8 = 0" "sz < bsize h"
  shows "hdr_ok (h + (sz - bsize h + 1))" "bsize (h + (sz - bsize h + 1)) = sz"
    "is_alloc (h + (sz - bsize h + 1))" "prev_alloc (h + (sz - bsize h + 1)) = prev_alloc h"
    "hdr_ok (2 + 0 + (bsize h - sz))" "bsize (2 + 0 + (bsize h - sz)) = bsize h - sz"
    "\<not> is_alloc (2 + 0 + (bsize h - sz))" "prev_alloc (2 + 0 + (bsize h - sz))"
    "sz + 8 \<le> bsize h"
proof -
  from assms(1) obtain q r where h: "h = 8 * q + r" "1 \<le> q" "r = 0 \<or> r = 1 \<or> r = 2 \<or> r = 3"
    using hdr_ok_split by blast
  from assms(4) obtain t where t: "sz = 8 * t" by (auto simp: mod_eq_0_iff_dvd)
  from h have bs: "bsize h = 8 * q" by (auto simp: bsize_def)
  from assms(3,5) t bs have tq: "1 \<le> t" "t < q" by simp_all
  have h1: "h + (sz - bsize h + 1) = 8 * t + (r + 1)" using h t bs by simp
  define d where "d = q - t"
  have d: "1 \<le> d" using tq by (simp add: d_def)
  have h2: "2 + 0 + (bsize h - sz) = 8 * d + 2" using t bs by (simp add: d_def)
  from h assms(2) have r: "r = 0 \<or> r = 2" by (auto simp: flags_mod8)
  show "hdr_ok (h + (sz - bsize h + 1))" unfolding h1 using r tq by (auto simp: hdr_ok_def)
  show "bsize (h + (sz - bsize h + 1)) = sz" unfolding h1 using r t by (auto simp: bsize_def)
  show "is_alloc (h + (sz - bsize h + 1))" unfolding h1 using r by (auto simp: flags_mod8)
  show "prev_alloc (h + (sz - bsize h + 1)) = prev_alloc h"
    unfolding h1 using r h(1) by (auto simp: flags_mod8)
  show "hdr_ok (2 + 0 + (bsize h - sz))" unfolding h2 using d by (simp add: hdr_ok_def)
  have "bsize (8 * d + 2) = 8 * d" by (simp add: bsize_def)
  then show "bsize (2 + 0 + (bsize h - sz)) = bsize h - sz"
    unfolding h2 using t bs by (simp add: d_def)
  show "\<not> is_alloc (2 + 0 + (bsize h - sz))" unfolding h2 by (simp add: flags_mod8)
  show "prev_alloc (2 + 0 + (bsize h - sz))" unfolding h2 by (simp add: flags_mod8)
  show "sz + 8 \<le> bsize h" using tq t bs by simp
qed

lemma alloc_split_chain:
  assumes c: "chain m a p (pre @ h # post) e" and e: "m e = 1" and f: "\<not> is_alloc h"
    and sz: "8 \<le> sz" "sz mod 8 = 0" "sz < bsize h"
  defines "b \<equiv> a + total pre"
  defines "m1 \<equiv> m(b := m b + (sz - bsize h + 1))"
  defines "m2 \<equiv> m1(b + sz := 2 + 0 + (bsize h - sz))"
  defines "m3 \<equiv> m2(b + sz + bsize h - sz - 4 := bsize h - sz)"
  shows "chain m3 a p (pre @ (h + (sz - bsize h + 1)) # (2 + 0 + (bsize h - sz)) # post) e \<and>
         m3 e = 1"
proof -
  note cf = chain_focus [OF c, folded b_def]
  from cf(2) have hb: "m b = h" and ok: "hdr_ok h"
    by (simp_all add: block_at_def)
  from cf(3) have le: "b + bsize h \<le> e" by (rule chain_le)
  note hs = hdr_split_alloc [OF ok f sz]
  have m3: "m3 = m(b := h + (sz - bsize h + 1), b + sz := 2 + 0 + (bsize h - sz),
                   b + bsize h - 4 := bsize h - sz)"
    by (simp add: m3_def m2_def m1_def hb)
  have "block_at m3 b (lastp p pre) (h + (sz - bsize h + 1))"
    unfolding block_at_def
  proof (intro conjI)
    show "m3 b = h + (sz - bsize h + 1)" using hs(9) sz(1) by (simp add: m3)
    show "prev_alloc (h + (sz - bsize h + 1)) = lastp p pre"
      using hs(4) cf(2) by (simp add: block_at_def)
    show "\<not> is_alloc (h + (sz - bsize h + 1)) \<longrightarrow>
          m3 (b + bsize (h + (sz - bsize h + 1)) - 4) = bsize (h + (sz - bsize h + 1))"
      using hs(3) by simp
  qed (rule hs(1))
  moreover have "block_at m3 (b + sz) True (2 + 0 + (bsize h - sz))"
    unfolding block_at_def
  proof (intro conjI)
    show "m3 (b + sz) = 2 + 0 + (bsize h - sz)" using hs(9) by (simp add: m3)
    show "prev_alloc (2 + 0 + (bsize h - sz)) = True" using hs(8) by simp
    show "\<not> is_alloc (2 + 0 + (bsize h - sz)) \<longrightarrow>
          m3 (b + sz + bsize (2 + 0 + (bsize h - sz)) - 4) = bsize (2 + 0 + (bsize h - sz))"
      unfolding hs(6) by (simp add: m3)
  qed (rule hs(5))
  moreover have "chain m3 (b + bsize h) False post e"
    by (rule chain_cong [OF cf(3) [unfolded f [THEN eq_False [THEN iffD2]]]])
       (use hs(9) sz(1) in \<open>simp add: m3\<close>)
  moreover have "chain m3 a p pre b"
    by (rule chain_cong [OF cf(1)]) (use hs(9) sz(1) in \<open>simp add: m3\<close>)
  moreover have "m3 e = 1" using e le hs(9) sz(1) by (simp add: m3)
  ultimately show ?thesis
    using hs by (simp add: chain_append b_def add.assoc)
qed

lemma free_chain:
  assumes c: "chain m a p (pre @ h # post) e" and e: "m e = 1" and al: "is_alloc h"
  defines "b \<equiv> a + total pre"
  defines "m1 \<equiv> m(b := m b - 1)"
  defines "m2 \<equiv> (if m1 (b + bsize h) \<noteq> 1
                   then m1(b + bsize h := m1 (b + bsize h) - (m1 (b + bsize h) AND 2)) else m1)"
  defines "m3 \<equiv> m2(b + bsize h - 4 := bsize h)"
  shows "chain m3 a p (pre @ (h - 1) # clear_prev post) e \<and> m3 e = 1"
proof -
  note cf = chain_focus [OF c, folded b_def]
  from cf(2) have hb: "m b = h" and ok: "hdr_ok h" by (simp_all add: block_at_def)
  from ok have b8: "8 \<le> bsize h" by (rule hdr_ok_bsize)
  from cf(3) have le: "b + bsize h \<le> e" by (rule chain_le)
  note ha = hdr_clear_alloc [OF ok al]
  have "chain m1 (b + bsize h) (is_alloc h) post e"
    by (rule chain_cong [OF cf(3)]) (use b8 in \<open>simp add: m1_def\<close>)
  moreover have "m1 e = 1" using e le b8 by (simp add: m1_def)
  ultimately have sp: "chain m2 (b + bsize h) False (clear_prev post) e" "m2 e = 1"
    "\<forall>x. x < b + bsize h \<longrightarrow> m2 x = m1 x"
    unfolding m2_def using chain_clear_prev [of m1 "b + bsize h" "is_alloc h" post e] by blast+
  have low: "m3 x = m x" if "x < b + bsize h" "x \<noteq> b" "x \<noteq> b + bsize h - 4" for x
    using that sp(3) by (simp add: m1_def m3_def)
  have "block_at m3 b (lastp p pre) (h - 1)"
  proof (rule block_at_rewrite [OF cf(2)])
    show "m3 b = h - 1" using sp(3) b8 hb by (simp add: m1_def m3_def)
    show "prev_alloc (h - 1) = lastp p pre" using ha cf(2) by (simp add: block_at_def)
    show "\<not> is_alloc (h - 1) \<longrightarrow> m3 (b + bsize h - 4) = bsize h" by (simp add: m3_def)
  qed (use ha in simp_all)
  moreover have "chain m3 a p pre b"
    by (rule chain_cong [OF cf(1)]) (use low b8 in auto)
  moreover have "chain m3 (b + bsize h) False (clear_prev post) e"
    by (rule chain_cong [OF sp(1)]) (simp add: m3_def)
  moreover have "m3 e = 1" using sp(2) le by (simp add: m3_def)
  ultimately show ?thesis
    using ha by (simp add: chain_append b_def)
qed

lemma hdr_add_bsize:
  "bsize (h + bsize g) = bsize h + bsize g" "is_alloc (h + bsize g) = is_alloc h"
  "prev_alloc (h + bsize g) = prev_alloc h" "hdr_ok h \<Longrightarrow> hdr_ok g \<Longrightarrow> hdr_ok (h + bsize g)"
proof -
  have g: "bsize g = 8 * (g div 8)" by (simp add: bsize_def minus_mod_eq_mult_div)
  show "bsize (h + bsize g) = bsize h + bsize g" unfolding g by (simp add: bsize_def)
  show "is_alloc (h + bsize g) = is_alloc h" unfolding g by (simp add: flags_mod8)
  show "prev_alloc (h + bsize g) = prev_alloc h" unfolding g by (simp add: flags_mod8)
  show "hdr_ok (h + bsize g)" if "hdr_ok h" "hdr_ok g"
    using that hdr_ok_bsize [OF that(2)] unfolding g by (simp add: hdr_ok_def)
qed

text \<open>One merging round of the loop: two adjacent free blocks become one.\<close>

lemma coalesce_step_chain:
  assumes c: "chain m a p (h1 # h2 # hs) e" and e: "m e = 1"
    and f: "\<not> is_alloc h1" "\<not> is_alloc h2"
  defines "nf \<equiv> a + bsize h1 + bsize h2 - 4"
  defines "m1 \<equiv> m(a := m a + bsize h2)"
  defines "m2 \<equiv> m1(nf := m1 nf + bsize h1)"
  shows "chain m2 a p ((h1 + bsize h2) # hs) e \<and> m2 e = 1 \<and>
         (\<forall>x. x \<noteq> a \<and> x \<noteq> nf \<longrightarrow> m2 x = m x)"
proof -
  from c have b1: "block_at m a p h1" and b2: "block_at m (a + bsize h1) False h2"
    and r: "chain m (a + bsize h1 + bsize h2) False hs e"
    using f by simp_all
  from b1 have h1: "m a = h1" and ok1: "hdr_ok h1" and p1: "prev_alloc h1 = p"
    by (simp_all add: block_at_def)
  from b2 have h2: "m (a + bsize h1) = h2" and ok2: "hdr_ok h2"
    and f2: "m (a + bsize h1 + bsize h2 - 4) = bsize h2"
    using f(2) by (simp_all add: block_at_def)
  note b8 = hdr_ok_bsize [OF ok1] hdr_ok_bsize [OF ok2]
  from r have le: "a + bsize h1 + bsize h2 \<le> e" by (rule chain_le)
  have nfa: "nf \<noteq> a" using b8 by (simp add: nf_def)
  then have "m1 nf = bsize h2" using f2 by (simp add: m1_def nf_def)
  then have m2: "m2 = m(a := h1 + bsize h2, nf := bsize h2 + bsize h1)"
    by (simp add: m2_def m1_def h1)
  have "block_at m2 a p (h1 + bsize h2)"
    unfolding block_at_def hdr_add_bsize
  proof (intro conjI)
    show "m2 a = h1 + bsize h2" using nfa by (simp add: m2)
    show "hdr_ok (h1 + bsize h2)" using ok1 ok2 by (rule hdr_add_bsize)
    show "prev_alloc h1 = p" by (rule p1)
    show "\<not> is_alloc h1 \<longrightarrow> m2 (a + (bsize h1 + bsize h2) - 4) = bsize h1 + bsize h2"
      by (simp add: m2 nf_def)
  qed
  moreover have "chain m2 (a + bsize h1 + bsize h2) False hs e"
    by (rule chain_cong [OF r]) (use b8 in \<open>simp add: m2 nf_def\<close>)
  moreover have "m2 e = 1" using e le b8 by (simp add: m2 nf_def)
  ultimately show ?thesis
    using f by (simp add: hdr_add_bsize add.assoc m2)
qed

lemma coalesce_loop_chain:
  "chain m a p hs e \<Longrightarrow> m e = 1 \<Longrightarrow>
   \<exists>m'. coalesce_loop m a ps = Some m' \<and> chain m' a p (merge hs) e \<and> m' e = 1 \<and>
        (\<forall>x. x \<notin> touched a hs \<longrightarrow> m' x = m x) \<and> (\<forall>x. x < a \<longrightarrow> m' x = m x)"
proof (induction hs arbitrary: m a p ps rule: merge.induct)
  case 1
  then show ?case by (subst coalesce_loop.simps) simp
next
  case (2 h)
  from 2(1) have h: "m a = h" and ok: "hdr_ok h" and en: "a + bsize h = e"
    by (simp_all add: block_at_def)
  have end_loop: "coalesce_loop m e q = Some m" for q
    using 2(2) by (subst coalesce_loop.simps) simp
  have "coalesce_loop m a ps = Some m"
    by (subst coalesce_loop.simps)
       (simp add: h hdr_ok_not_end [OF ok] hdr_ok_smod8 [OF ok] en end_loop 2(2) Let_def)
  with 2 show ?case by simp
next
  case (3 h1 h2 hs)
  from 3(3) have b1: "block_at m a p h1"
    and r: "chain m (a + bsize h1) (is_alloc h1) (h2 # hs) e"
    by simp_all
  from b1 have h1: "m a = h1" and ok1: "hdr_ok h1" by (simp_all add: block_at_def)
  from r have h2: "m (a + bsize h1) = h2" and ok2: "hdr_ok h2" by (simp_all add: block_at_def)
  from ok1 have b8: "8 \<le> bsize h1" by (rule hdr_ok_bsize)
  show ?case
  proof (cases "is_alloc h1 \<or> is_alloc h2")
    case True
    from "3.IH"(1) [OF True r 3(4), of "bsize h1"]
    obtain m' where m': "coalesce_loop m (a + bsize h1) (bsize h1) = Some m'"
      "chain m' (a + bsize h1) (is_alloc h1) (merge (h2 # hs)) e" "m' e = 1"
      "\<forall>x. x \<notin> touched (a + bsize h1) (h2 # hs) \<longrightarrow> m' x = m x"
      "\<forall>x. x < a + bsize h1 \<longrightarrow> m' x = m x"
      by blast
    have "coalesce_loop m a ps = Some m'"
      by (subst coalesce_loop.simps)
         (use True in \<open>auto simp: h1 h2 hdr_ok_not_end [OF ok1] hdr_ok_smod8 [OF ok1]
            and1_alloc m'(1) Let_def\<close>)
    moreover have "block_at m' a p h1"
      by (rule block_at_cong [OF _ b1]) (use m'(5) in simp)
    moreover have "\<forall>x. x < a \<longrightarrow> m' x = m x" using m'(5) b8 by simp
    ultimately show ?thesis using m' True by simp
  next
    case False
    then have f: "\<not> is_alloc h1" "\<not> is_alloc h2" by simp_all
    define nf where "nf = a + bsize h1 + bsize h2 - 4"
    define m2 where "m2 = (m(a := m a + bsize h2))
                            (nf := (m(a := m a + bsize h2)) nf + bsize h1)"
    from coalesce_step_chain [OF 3(3,4) f, folded nf_def, folded m2_def]
    have st: "chain m2 a p ((h1 + bsize h2) # hs) e" "m2 e = 1"
      "\<forall>x. x \<noteq> a \<and> x \<noteq> nf \<longrightarrow> m2 x = m x"
      by blast+
    from "3.IH"(2) [OF False st(1,2), of "bsize h1 + bsize h2"]
    obtain m' where m': "coalesce_loop m2 a (bsize h1 + bsize h2) = Some m'"
      "chain m' a p (merge ((h1 + bsize h2) # hs)) e" "m' e = 1"
      "\<forall>x. x \<notin> touched a ((h1 + bsize h2) # hs) \<longrightarrow> m' x = m2 x"
      "\<forall>x. x < a \<longrightarrow> m' x = m2 x"
      by blast
    have "coalesce_loop m a ps = coalesce_loop m2 a (bsize h1 + bsize h2)"
      by (subst coalesce_loop.simps)
         (use f in \<open>simp add: h1 h2 hdr_ok_not_end [OF ok1] hdr_ok_smod8 [OF ok1]
            hdr_ok_smod8 [OF ok2] and1_alloc Let_def sizeof_blockHeader_ptr_def
            m2_def nf_def\<close>)
    with m'(1) have "coalesce_loop m a ps = Some m'" by simp
    moreover have "\<forall>x. x \<notin> touched a (h1 # h2 # hs) \<longrightarrow> m' x = m x"
      using m'(4) st(3) f by (simp add: nf_def)
    moreover have "\<forall>x. x < a \<longrightarrow> m' x = m x"
      using m'(5) st(3) b8 hdr_ok_bsize [OF ok2] by (simp add: nf_def)
    ultimately show ?thesis using m' f by simp
  qed
qed

lemma needed_size_bounds:
  assumes "0 < n" "n \<le> 2147483635"
  shows "8 \<le> needed_size n" "needed_size n mod 8 = 0" "n + 4 \<le> needed_size n"
    "needed_size n < n + 12"
proof -
  have w1: "wrap32 (n + 4) = n + 4" using assms by (simp add: wrap32_id)
  have s: "(n + 4) smod 8 = (n + 4) mod 8" using assms by (simp add: smod8)
  have m: "0 \<le> (n + 4) mod 8" "(n + 4) mod 8 < 8" by simp_all
  have w2: "wrap32 (12 + n) = 12 + n" using assms by (simp add: wrap32_id)
  have w3: "wrap32 (12 + n - (n + 4) mod 8) = 12 + n - (n + 4) mod 8"
    using assms m by (intro wrap32_id) linarith+
  have ns: "needed_size n = (if (n + 4) mod 8 \<noteq> 0 then n + 4 + 8 - (n + 4) mod 8 else n + 4)"
    by (simp add: needed_size_def Let_def w1 s w2 w3)
  show "8 \<le> needed_size n" unfolding ns using assms(1) by presburger
  show "needed_size n mod 8 = 0" unfolding ns by presburger
  show "n + 4 \<le> needed_size n" unfolding ns by presburger
  show "needed_size n < n + 12" unfolding ns by presburger
qed

lemma myAlloc_inv:
  assumes inv: "heap_inv s hs" and n: "0 < n" "n \<le> allocsize s"
  shows "(\<forall>j < length hs. \<not> fits (needed_size n) (hs ! j)) \<and> myAlloc s n = Some (NULL, s) \<or>
         (\<exists>i m'. best_fit (needed_size n) hs i \<and>
            myAlloc s n = Some (block_addr (heapStart s) hs i + 4, s\<lparr>mem := m'\<rparr>) \<and>
            heap_inv (s\<lparr>mem := m'\<rparr>) (place (needed_size n) i hs))"
proof -
  define sz where "sz = needed_size n"
  define a where "a = heapStart s"
  define e where "e = heapStart s + allocsize s"
  from inv have al: "region_ok s" and c: "chain (mem s) a True hs e"
    and en: "mem s e = 1"
    by (simp_all add: heap_inv_def a_def e_def)
  from al n(2) have n3: "n \<le> 2147483635" by (simp add: region_ok_def)
  note nb = needed_size_bounds [OF n(1) n3, folded sz_def]
  obtain flag best bs where sc: "scan sz a hs 0 NULL 0 = (flag, best, bs)"
    by (cases "scan sz a hs 0 NULL 0") auto
  have loop: "alloc_loop (mem s) sz a 0 NULL 0 = Some (flag, best, bs)"
    using alloc_loop_chain [OF c en] sc by simp
  have scd: "scanned sz a hs (flag, best, bs)"
    using scan_best_fit [of sz a hs NULL 0] sc by simp
  show ?thesis
  proof (cases "flag = 0")
    case True
    with scd have "\<forall>j < length hs. \<not> fits sz (hs ! j)" by (simp add: scanned_def)
    moreover have "myAlloc s n = Some (NULL, s)"
      using n loop True by (simp add: myAlloc_def sz_def [symmetric] a_def [symmetric])
    ultimately show ?thesis unfolding sz_def by blast
  next
    case False
    with scd obtain i where i: "best_fit sz hs i" "best = block_addr a hs i" "bs = bsize (hs ! i)"
      by (auto simp: scanned_def)
    from i(1) have il: "i < length hs" and fi: "fits sz (hs ! i)" by (simp_all add: best_fit_def)
    define h where "h = hs ! i"
    define pre where "pre = take i hs"
    define post where "post = drop (Suc i) hs"
    have hs: "hs = pre @ h # post" unfolding pre_def h_def post_def using il
      by (rule id_take_nth_drop)
    have best: "best = a + total pre" using i(2) by (simp add: block_addr_def pre_def)
    from fi have f: "\<not> is_alloc h" and szle: "sz \<le> bsize h" by (simp_all add: fits_def h_def)
    note c' = c [unfolded hs]
    show ?thesis
    proof (cases "bsize h = sz")
      case True
      define m2 where "m2 =
        (if ((mem s)(best := mem s best + 1)) (best + bsize h) \<noteq> 1
         then ((mem s)(best := mem s best + 1))
                (best + bsize h := ((mem s)(best := mem s best + 1)) (best + bsize h) + 2)
         else (mem s)(best := mem s best + 1))"
      from alloc_exact_chain [OF c' en f, folded best, folded m2_def]
      have r: "chain m2 a True (pre @ (h + 1) # set_prev post) e" "m2 e = 1" by simp_all
      have pl: "place sz i hs = pre @ (h + 1) # set_prev post"
        using True by (simp add: place_def Let_def h_def pre_def post_def)
      have "myAlloc s n = Some (best + 4, s\<lparr>mem := m2\<rparr>)"
        using n loop False True i(3)
        by (simp add: myAlloc_def sz_def [symmetric] a_def [symmetric] h_def [symmetric]
            Let_def m2_def sizeof_blockHeader_def)
      moreover have "heap_inv (s\<lparr>mem := m2\<rparr>) (place sz i hs)"
        using r al by (simp add: heap_inv_def pl a_def e_def)
      ultimately show ?thesis using i(1,2) unfolding sz_def a_def by blast
    next
      case False
      with szle have lt: "sz < bsize h" by simp
      define m3 where "m3 =
        ((mem s)(best := mem s best + (sz - bsize h + 1), best + sz := 2 + 0 + (bsize h - sz)))
          (best + sz + bsize h - sz - 4 := bsize h - sz)"
      from alloc_split_chain [OF c' en f nb(1,2) lt, folded best, folded m3_def]
      have r: "chain m3 a True (pre @ (h + (sz - bsize h + 1)) # (2 + 0 + (bsize h - sz)) # post) e"
        "m3 e = 1" by simp_all
      have pl: "place sz i hs = pre @ (h + (sz - bsize h + 1)) # (2 + 0 + (bsize h - sz)) # post"
        using False by (simp add: place_def Let_def h_def pre_def post_def)
      have "myAlloc s n = Some (best + 4, s\<lparr>mem := m3\<rparr>)"
        using n loop \<open>flag \<noteq> 0\<close> False i(3)
        by (simp add: myAlloc_def sz_def [symmetric] a_def [symmetric] h_def [symmetric]
            Let_def m3_def sizeof_blockHeader_def)
      moreover have "heap_inv (s\<lparr>mem := m3\<rparr>) (place sz i hs)"
        using r al by (simp add: heap_inv_def pl a_def e_def)
      ultimately show ?thesis using i(1,2) unfolding sz_def a_def by blast
    qed
  qed
qed

lemma total_mod8: "total hs mod 8 = 0"
proof (induction hs)
  case Nil
  show ?case by simp
next
  case (Cons h hs)
  have "bsize h = 8 * (h div 8)" by (simp add: bsize_def minus_mod_eq_mult_div)
  then have "(bsize h + total hs) mod 8 = total hs mod 8" by simp
  with Cons show ?case by simp
qed

lemma total_mult: "\<exists>t. total hs = 8 * t"
proof -
  have "8 dvd total hs" using total_mod8 [of hs] by (simp add: dvd_eq_mod_eq_0)
  then show ?thesis unfolding dvd_def .
qed

lemma payload_aligned: "a mod 8 = 4 \<Longrightarrow> (a + total hs + 4) mod 8 = 0"
proof -
  assume a: "a mod 8 = 4"
  obtain t where t: "total hs = 8 * t" using total_mult by blast
  have "(a + 8 * t + 4) mod 8 = (a + 4) mod 8"
    by (metis add.assoc add.commute mod_mult_self4)
  moreover have "(a + 4) mod 8 = 0" using a by presburger
  ultimately show ?thesis by (simp add: t)
qed

lemma chain_end_aligned: "chain m a p hs e \<Longrightarrow> a mod 8 = 4 \<Longrightarrow> e mod 8 = 4"
proof -
  assume c: "chain m a p hs e" and a: "a mod 8 = 4"
  obtain t where t: "total hs = 8 * t" using total_mult by blast
  have "e = a + 8 * t" using chain_end [OF c] by (simp add: t)
  then show ?thesis using a by simp
qed

text \<open>Freeing the payload of an allocated block of the chain.\<close>

lemma myFree_block:
  assumes inv: "heap_inv s (pre @ h # post)" and al: "is_alloc h"
  shows "\<exists>m'. myFree s (heapStart s + total pre + 4) = (0, s\<lparr>mem := m'\<rparr>) \<and>
              heap_inv (s\<lparr>mem := m'\<rparr>) (pre @ (h - 1) # clear_prev post)"
proof -
  define a where "a = heapStart s"
  define e where "e = heapStart s + allocsize s"
  define b where "b = a + total pre"
  from inv have ro: "region_ok s"
    and c: "chain (mem s) a True (pre @ h # post) e" and en: "mem s e = 1"
    by (simp_all add: heap_inv_def a_def e_def)
  from ro have a0: "0 \<le> a" and a8: "a mod 8 = 4" by (simp_all add: region_ok_def a_def)
  note cf = chain_focus [OF c, folded b_def]
  from cf(2) have hb: "mem s b = h" and ok: "hdr_ok h" by (simp_all add: block_at_def)
  from ok have b8: "8 \<le> bsize h" by (rule hdr_ok_bsize)
  from cf(3) have le: "b + bsize h \<le> e" by (rule chain_le)
  from cf(1) have ge: "a \<le> b" by (rule chain_le)
  note ha = hdr_clear_alloc [OF ok al]
  define m3 where "m3 =
    (if ((mem s)(b := mem s b - 1)) (b + bsize h) \<noteq> 1
     then ((mem s)(b := mem s b - 1))
            (b + bsize h := ((mem s)(b := mem s b - 1)) (b + bsize h) -
                            (((mem s)(b := mem s b - 1)) (b + bsize h) AND 2))
     else (mem s)(b := mem s b - 1))(b + bsize h - 4 := bsize h)"
  from free_chain [OF c en al, folded b_def, folded m3_def]
  have r: "chain m3 a True (pre @ (h - 1) # clear_prev post) e" "m3 e = 1" by simp_all
  have 1: "b + 4 \<noteq> NULL" using a0 ge by (simp add: NULL_def)
  have 2: "int_of_ptr (b + 4) smod 8 = 0"
    using payload_aligned [OF a8, of pre] by (simp add: int_of_ptr_aligned b_def)
  have 3: "\<not> (b + 4 < a \<or> b + 4 > a + allocsize s)" using ge le b8 by (simp add: e_def a_def)
  have 4: "h smod 2 \<noteq> 0" using hdr_ok_smod2 [OF ok] al by simp
  have 5: "h - 1 - (h - 1) smod 8 = bsize h" using hdr_ok_smod8 [of "h - 1"] ha by simp
  have "myFree s (b + 4) = (0, s\<lparr>mem := m3\<rparr>)"
    using 1 2 3 4 5
    by (simp add: myFree_def sizeof_blockHeader_def a_def [symmetric] hb Let_def m3_def)
  moreover have "heap_inv (s\<lparr>mem := m3\<rparr>) (pre @ (h - 1) # clear_prev post)"
    using r ro by (simp add: heap_inv_def a_def e_def)
  ultimately show ?thesis unfolding b_def a_def by blast
qed

lemma example_heap_inv: "heap_inv example_heap [42, 24, 64]"
  by (simp add: heap_inv_def region_ok_def example_heap_def block_at_def hdr_ok_def bsize_def
      is_alloc_def prev_alloc_def)

lemma example_heap_64_inv: "heap_inv example_heap_64 [66]"
  by (simp add: heap_inv_def region_ok_def example_heap_64_def block_at_def hdr_ok_def bsize_def
      is_alloc_def prev_alloc_def)

lemma example_heap_user_inv: "heap_inv example_heap_user [27, 42]"
  by (simp add: heap_inv_def region_ok_def example_heap_user_def block_at_def hdr_ok_def
      bsize_def is_alloc_def prev_alloc_def)

lemma myAlloc_example_user:
  "myAlloc example_heap_user 20 =
     Some (32, example_heap_user\<lparr>mem := (mem example_heap_user)(28 := 27, 52 := 18, 64 := 16)\<rparr>)"
  by (simp add: myAlloc_def needed_size_def wrap32_def signed_modulo_int_def alloc_loop.simps
      example_heap_user_def Let_def sizeof_blockHeader_def NULL_def)

lemma needed_size_20: "needed_size 20 = 24"
  by (simp add: needed_size_def wrap32_def signed_modulo_int_def)

lemma heap_inv_request:
  "heap_inv s hs \<Longrightarrow> n \<le> allocsize s \<Longrightarrow> n \<le> 2147483635"
  by (simp add: heap_inv_def region_ok_def)

lemma best_fit_unique: "best_fit sz hs i \<Longrightarrow> best_fit sz hs j \<Longrightarrow> i = j"
  unfolding best_fit_def by (meson order_antisym)

lemma best_fit_example: "best_fit 24 [42, 24, 64] i = (i = 1)"
proof
  have 1: "best_fit 24 [42, 24, 64] 1"
    by (simp add: best_fit_def fits_def bsize_def is_alloc_def less_Suc_eq
        numeral_3_eq_3 all_conj_distrib)
  show "best_fit 24 [42, 24, 64] i \<Longrightarrow> i = 1" using 1 by (rule best_fit_unique [rotated])
  show "i = 1 \<Longrightarrow> best_fit 24 [42, 24, 64] i" using 1 by simp
qed

lemma best_fit_example_64: "best_fit 24 [66] i = (i = 0)"
  by (auto simp: best_fit_def fits_def bsize_def is_alloc_def)

lemma heap_inv_block:
  assumes "heap_inv s hs" "i < length hs"
  shows "mem s (block_addr (heapStart s) hs i) = hs ! i" "hdr_ok (hs ! i)"
    "heapStart s \<le> block_addr (heapStart s) hs i"
    "block_addr (heapStart s) hs i + bsize (hs ! i) \<le> heapStart s + allocsize s"
proof -
  have hs: "hs = take i hs @ hs ! i # drop (Suc i) hs" using assms(2) by (rule id_take_nth_drop)
  from assms(1) have c: "chain (mem s) (heapStart s) True hs (heapStart s + allocsize s)"
    by (simp add: heap_inv_def)
  note cf = chain_focus [of "mem s" "heapStart s" True "take i hs" "hs ! i" "drop (Suc i) hs",
      folded hs, OF c, folded block_addr_def]
  from cf(2) show "mem s (block_addr (heapStart s) hs i) = hs ! i" "hdr_ok (hs ! i)"
    by (simp_all add: block_at_def)
  from cf(1) show "heapStart s \<le> block_addr (heapStart s) hs i" by (rule chain_le)
  from cf(3) show "block_addr (heapStart s) hs i + bsize (hs ! i) \<le> heapStart s + allocsize s"
    by (rule chain_le)
qed

lemma place_nth:
  assumes "i < length hs"
  shows "place sz i hs ! i = (if bsize (hs ! i) = sz then hs ! i + 1
                              else hs ! i + (sz - bsize (hs ! i) + 1))"
    and "i < length (place sz i hs)"
    and "block_addr a (place sz i hs) i = block_addr a hs i"
proof -
  show "place sz i hs ! i = (if bsize (hs ! i) = sz then hs ! i + 1
                             else hs ! i + (sz - bsize (hs ! i) + 1))"
    using assms by (simp add: place_def Let_def nth_append)
  show "i < length (place sz i hs)"
    using assms by (auto simp: place_def Let_def)
  show "block_addr a (place sz i hs) i = block_addr a hs i"
    using assms by (simp add: place_def Let_def block_addr_def)
qed

text \<open>
  C1. On a well-formed heap, whatever its payload words hold, \<open>myAlloc\<close> returns for a
  positive request within \<open>allocsize\<close>. The needed size is the request plus 4, rounded up
  to a multiple of 8. When no free block has at least the needed size the result is \<open>NULL\<close>
  and nothing changes; otherwise the block that is allocated is the free block of least size
  among the free blocks of at least the needed size, and among those of that least size the
  first in address order (\<open>best_fit\<close>): the result is the address after that block's header,
  and the block's a-bit is set afterwards.
\<close>

theorem myAlloc_best_fit:
  assumes "heap_inv s hs" "0 < n" "n \<le> allocsize s"
  shows "needed_size n mod 8 = 0 \<and> n + 4 \<le> needed_size n \<and> needed_size n < n + 12 \<and>
         (\<exists>r s'. myAlloc s n = Some (r, s') \<and>
           (if \<forall>j < length hs. \<not> fits (needed_size n) (hs ! j) then r = NULL \<and> s' = s
            else \<exists>i. best_fit (needed_size n) hs i \<and>
                   r = block_addr (heapStart s) hs i + sizeof_blockHeader \<and>
                   mem s (block_addr (heapStart s) hs i) = hs ! i \<and>
                   is_alloc (mem s' (block_addr (heapStart s) hs i))))"
proof -
  note nb = needed_size_bounds [OF assms(2) heap_inv_request [OF assms(1,3)]]
  from myAlloc_inv [OF assms]
  consider (none) "\<forall>j < length hs. \<not> fits (needed_size n) (hs ! j)" "myAlloc s n = Some (NULL, s)"
    | (some) i m' where "best_fit (needed_size n) hs i"
        "myAlloc s n = Some (block_addr (heapStart s) hs i + 4, s\<lparr>mem := m'\<rparr>)"
        "heap_inv (s\<lparr>mem := m'\<rparr>) (place (needed_size n) i hs)"
    by blast
  then have "\<exists>r s'. myAlloc s n = Some (r, s') \<and>
           (if \<forall>j < length hs. \<not> fits (needed_size n) (hs ! j) then r = NULL \<and> s' = s
            else \<exists>i. best_fit (needed_size n) hs i \<and>
                   r = block_addr (heapStart s) hs i + sizeof_blockHeader \<and>
                   mem s (block_addr (heapStart s) hs i) = hs ! i \<and>
                   is_alloc (mem s' (block_addr (heapStart s) hs i)))"
  proof cases
    case none
    then show ?thesis by simp
  next
    case some
    from some(1) have il: "i < length hs" and fi: "fits (needed_size n) (hs ! i)"
      by (simp_all add: best_fit_def)
    from fi have f: "\<not> is_alloc (hs ! i)" by (simp add: fits_def)
    note old = heap_inv_block [OF assms(1) il]
    note pn = place_nth [OF il, where sz = "needed_size n"]
    from heap_inv_block(1) [OF some(3) pn(2)]
    have new: "m' (block_addr (heapStart s) hs i) = place (needed_size n) i hs ! i"
      by (simp add: pn(3))
    have "is_alloc (place (needed_size n) i hs ! i)"
    proof (cases "bsize (hs ! i) = needed_size n")
      case True
      with hdr_set_alloc [OF old(2) f] show ?thesis by (simp add: pn(1))
    next
      case False
      with fi have "needed_size n < bsize (hs ! i)" by (simp add: fits_def)
      from hdr_split_alloc(3) [OF old(2) f nb(1,2) this] False
      show ?thesis by (simp add: pn(1))
    qed
    with new have "is_alloc (m' (block_addr (heapStart s) hs i))" by simp
    moreover have "\<not> (\<forall>j < length hs. \<not> fits (needed_size n) (hs ! j))" using il fi by blast
    ultimately show ?thesis using some(1,2) old(1) by (auto simp: sizeof_blockHeader_def)
  qed
  with nb(2,3,4) show ?thesis by blast
qed

theorem myAlloc_best_fit_witness:
  "heap_inv example_heap [42, 24, 64] \<and> (0::int) < 20 \<and> 20 \<le> allocsize example_heap \<and>
   (\<exists>s'. myAlloc example_heap 20 = Some (48, s') \<and> is_alloc (mem s' 44))"
proof -
  have le: "20 \<le> allocsize example_heap" by (simp add: example_heap_def)
  have fit: "\<not> (\<forall>j < length [42, 24, 64::int]. \<not> fits 24 ([42, 24, 64] ! j))"
    by (auto simp: fits_def bsize_def is_alloc_def intro!: exI [of _ 1])
  have addr: "block_addr (heapStart example_heap) [42, 24, 64] (Suc 0) = 44"
    by (simp add: block_addr_def example_heap_def bsize_def)
  from myAlloc_best_fit [OF example_heap_inv _ le]
  obtain r s' where r: "myAlloc example_heap 20 = Some (r, s')"
    "if \<forall>j < length [42, 24, 64::int]. \<not> fits (needed_size 20) ([42, 24, 64] ! j)
     then r = NULL \<and> s' = example_heap
     else \<exists>i. best_fit (needed_size 20) [42, 24, 64] i \<and>
            r = block_addr (heapStart example_heap) [42, 24, 64] i + sizeof_blockHeader \<and>
            mem example_heap (block_addr (heapStart example_heap) [42, 24, 64] i) =
              [42, 24, 64] ! i \<and>
            is_alloc (mem s' (block_addr (heapStart example_heap) [42, 24, 64] i))"
    by auto
  from r(2) obtain i where i: "best_fit 24 [42, 24, 64] i"
    "r = block_addr (heapStart example_heap) [42, 24, 64] i + sizeof_blockHeader"
    "is_alloc (mem s' (block_addr (heapStart example_heap) [42, 24, 64] i))"
    unfolding needed_size_20 by (simp only: fit if_False) blast
  from i(1) have "i = 1" by (simp add: best_fit_example)
  with i(2,3) have "r = 48 \<and> is_alloc (mem s' 44)"
    by (simp add: addr sizeof_blockHeader_def)
  with r(1) have "\<exists>s'. myAlloc example_heap 20 = Some (48, s') \<and> is_alloc (mem s' 44)"
    by blast
  with example_heap_inv le show ?thesis by simp
qed

text \<open>
  C2. On a well-formed heap, whatever its payload words hold, when the best-fit block is
  larger than the needed size, \<open>myAlloc\<close> splits it. The header of the block then holds the
  needed size with the a-bit set and the p-bit it had; the word at the needed size after it
  is the header of a free block: the remaining size, a-bit clear, p-bit set; the last word of
  the old block is the footer of that free block and holds the remaining size; the result is
  the address after the header of the allocated block. Both blocks are part of the block list
  afterwards.
\<close>

theorem myAlloc_split:
  assumes "heap_inv s hs" "0 < n" "n \<le> allocsize s" "best_fit (needed_size n) hs i"
    "needed_size n < bsize (hs ! i)"
  shows "\<exists>s'. myAlloc s n = Some (block_addr (heapStart s) hs i + sizeof_blockHeader, s') \<and>
           mem s (block_addr (heapStart s) hs i) = hs ! i \<and>
           bsize (mem s' (block_addr (heapStart s) hs i)) = needed_size n \<and>
           is_alloc (mem s' (block_addr (heapStart s) hs i)) \<and>
           prev_alloc (mem s' (block_addr (heapStart s) hs i)) = prev_alloc (hs ! i) \<and>
           bsize (mem s' (block_addr (heapStart s) hs i + needed_size n)) =
             bsize (hs ! i) - needed_size n \<and>
           \<not> is_alloc (mem s' (block_addr (heapStart s) hs i + needed_size n)) \<and>
           prev_alloc (mem s' (block_addr (heapStart s) hs i + needed_size n)) \<and>
           mem s' (block_addr (heapStart s) hs i + bsize (hs ! i) - sizeof_blockHeader) =
             bsize (hs ! i) - needed_size n \<and>
           heap_inv s'
             (take i hs @ mem s' (block_addr (heapStart s) hs i) #
              mem s' (block_addr (heapStart s) hs i + needed_size n) # drop (Suc i) hs)"
proof -
  define sz where "sz = needed_size n"
  define b where "b = block_addr (heapStart s) hs i"
  define h where "h = hs ! i"
  from assms(4) have il: "i < length hs" and fi: "fits sz h"
    by (simp_all add: best_fit_def sz_def h_def)
  from fi have f: "\<not> is_alloc h" by (simp add: fits_def)
  from assms(4) have nofit: "\<not> (\<forall>j < length hs. \<not> fits (needed_size n) (hs ! j))"
    by (auto simp: best_fit_def)
  note old = heap_inv_block [OF assms(1) il, folded b_def h_def]
  note hsp = hdr_split_alloc [OF old(2) f
      needed_size_bounds(1,2) [OF assms(2) heap_inv_request [OF assms(1,3)], folded sz_def]
      assms(5) [folded sz_def h_def]]
  from myAlloc_inv [OF assms(1-3)] nofit
  obtain j m' where j: "best_fit (needed_size n) hs j"
    "myAlloc s n = Some (block_addr (heapStart s) hs j + 4, s\<lparr>mem := m'\<rparr>)"
    "heap_inv (s\<lparr>mem := m'\<rparr>) (place (needed_size n) j hs)"
    by blast
  from j(1) assms(4) have ji: "j = i" by (rule best_fit_unique)
  have pl: "place sz i hs = take i hs @ (h + (sz - bsize h + 1)) # (2 + 0 + (bsize h - sz)) #
              drop (Suc i) hs"
    using assms(5) by (simp add: place_def Let_def sz_def h_def)
  from j(3) have c: "chain m' (heapStart s) True
      (take i hs @ (h + (sz - bsize h + 1)) # (2 + 0 + (bsize h - sz)) # drop (Suc i) hs)
      (heapStart s + allocsize s)"
    by (simp add: heap_inv_def ji sz_def [symmetric] pl)
  note cf = chain_focus [OF c, folded block_addr_def [of "heapStart s" hs i], folded b_def]
  from cf(2) have 1: "m' b = h + (sz - bsize h + 1)" by (simp add: block_at_def)
  from cf(3) have b2: "block_at m' (b + sz) True (2 + 0 + (bsize h - sz))"
    by (simp add: hsp)
  from b2 have 2: "m' (b + sz) = 2 + 0 + (bsize h - sz)" by (simp add: block_at_def)
  from b2 hsp have 3: "m' (b + bsize h - 4) = bsize h - sz"
    by (simp add: block_at_def)
  have 4: "heap_inv (s\<lparr>mem := m'\<rparr>) (take i hs @ m' b # m' (b + sz) # drop (Suc i) hs)"
    using j(3) by (simp add: ji sz_def [symmetric] pl 1 2)
  have 5: "myAlloc s n = Some (b + sizeof_blockHeader, s\<lparr>mem := m'\<rparr>)"
    using j(2) by (simp add: ji b_def sizeof_blockHeader_def)
  define s' where "s' = s\<lparr>mem := m'\<rparr>"
  have m: "mem s' = m'" by (simp add: s'_def)
  have c1: "bsize (mem s' b) = sz" unfolding m 1 by (rule hsp(2))
  have c2: "is_alloc (mem s' b)" unfolding m 1 by (rule hsp(3))
  have c3: "prev_alloc (mem s' b) = prev_alloc h" unfolding m 1 by (rule hsp(4))
  have c4: "bsize (mem s' (b + sz)) = bsize h - sz" unfolding m 2 by (rule hsp(6))
  have c5: "\<not> is_alloc (mem s' (b + sz))" unfolding m 2 by (rule hsp(7))
  have c6: "prev_alloc (mem s' (b + sz))" unfolding m 2 by (rule hsp(8))
  have c7: "mem s' (b + bsize h - sizeof_blockHeader) = bsize h - sz"
    unfolding m sizeof_blockHeader_def by (rule 3)
  have c8: "heap_inv s' (take i hs @ mem s' b # mem s' (b + sz) # drop (Suc i) hs)"
    unfolding m using 4 by (simp only: s'_def)
  have c0: "myAlloc s n = Some (b + sizeof_blockHeader, s')" using 5 by (simp only: s'_def)
  from c0 old(1) c1 c2 c3 c4 c5 c6 c7 c8 show ?thesis
    unfolding sz_def b_def h_def by blast
qed

theorem myAlloc_split_witness:
  "heap_inv example_heap_64 [66] \<and> (0::int) < 20 \<and> 20 \<le> allocsize example_heap_64 \<and>
   best_fit (needed_size 20) [66] 0 \<and> needed_size 20 < bsize ([66] ! 0) \<and>
   (\<exists>s'. myAlloc example_heap_64 20 = Some (8, s') \<and> mem s' 4 = 27 \<and> mem s' 28 = 42 \<and>
         mem s' 64 = 40 \<and> heap_inv s' [27, 42])"
proof -
  have le: "20 \<le> allocsize example_heap_64" by (simp add: example_heap_64_def)
  have bf: "best_fit (needed_size 20) [66] 0" by (simp add: needed_size_20 best_fit_example_64)
  have lt: "needed_size 20 < bsize ([66] ! 0)" by (simp add: needed_size_20 bsize_def)
  have addr: "block_addr (heapStart example_heap_64) [66] 0 = 4"
    by (simp add: block_addr_def example_heap_64_def)
  from myAlloc_split [OF example_heap_64_inv _ le bf lt]
  obtain s' where s': "myAlloc example_heap_64 20 = Some (8, s')"
    "bsize (mem s' 4) = 24" "is_alloc (mem s' 4)" "prev_alloc (mem s' 4)"
    "bsize (mem s' 28) = 40" "\<not> is_alloc (mem s' 28)" "prev_alloc (mem s' 28)"
    "mem s' 64 = 40" "heap_inv s' [mem s' 4, mem s' 28]"
    unfolding addr needed_size_20
    by (auto simp: sizeof_blockHeader_def bsize_def prev_alloc_def)
  from s'(9) have ok: "hdr_ok (mem s' 4)" "hdr_ok (mem s' 28)"
    by (simp_all add: heap_inv_def block_at_def)
  have dec: "x = bsize x + x mod 8" for x by (simp add: bsize_def)
  have fl: "hdr_ok x \<Longrightarrow> x mod 8 = (if prev_alloc x then 2 else 0) + (if is_alloc x then 1 else 0)"
    for x unfolding hdr_ok_def flags_mod8 by presburger
  have "mem s' 4 = 27" using dec [of "mem s' 4"] fl [OF ok(1)] s'(2,3,4) by simp
  moreover have "mem s' 28 = 42" using dec [of "mem s' 28"] fl [OF ok(2)] s'(5,6,7) by simp
  ultimately show ?thesis using s' example_heap_64_inv le bf lt by auto
qed

text \<open>
  C7. On a well-formed heap, whatever its payload words hold, \<open>myAlloc\<close> returns for every
  request, and an address it returns other than \<open>NULL\<close> is a multiple of 8 that lies after
  the start of the region and before the end mark. (The start of a well-formed region is 4
  modulo 8: \<open>myInit\<close> makes it so, see \<open>myInit_inv\<close>, and no operation changes it.)
\<close>

theorem myAlloc_address:
  assumes "heap_inv s hs"
  shows "\<exists>r s'. myAlloc s n = Some (r, s') \<and>
           (r \<noteq> NULL \<longrightarrow> r mod 8 = 0 \<and> heapStart s < r \<and> r < heapStart s + allocsize s)"
proof (cases "0 < n \<and> n \<le> allocsize s")
  case False
  then have "myAlloc s n = Some (NULL, s)" by (auto simp: myAlloc_def)
  then show ?thesis by simp
next
  case True
  then have n: "0 < n" "n \<le> allocsize s" by simp_all
  from myAlloc_inv [OF assms n]
  consider (none) "myAlloc s n = Some (NULL, s)"
    | (some) i m' where "best_fit (needed_size n) hs i"
        "myAlloc s n = Some (block_addr (heapStart s) hs i + 4, s\<lparr>mem := m'\<rparr>)"
    by blast
  then show ?thesis
  proof cases
    case none
    then show ?thesis by simp
  next
    case some
    from some(1) have il: "i < length hs" by (simp add: best_fit_def)
    note blk = heap_inv_block [OF assms il]
    from assms have a8: "heapStart s mod 8 = 4" by (simp add: heap_inv_def region_ok_def)
    have "(block_addr (heapStart s) hs i + 4) mod 8 = 0"
      unfolding block_addr_def using a8 by (rule payload_aligned)
    moreover have "heapStart s < block_addr (heapStart s) hs i + 4" using blk(3) by simp
    moreover have "block_addr (heapStart s) hs i + 4 < heapStart s + allocsize s"
      using blk(4) hdr_ok_bsize [OF blk(2)] by simp
    ultimately show ?thesis using some(2) by simp
  qed
qed

theorem myAlloc_address_witness:
  "heap_inv example_heap_user [27, 42] \<and>
   (\<exists>s'. myAlloc example_heap_user 20 = Some (32, s')) \<and> 32 \<noteq> NULL \<and>
   (32::int) mod 8 = 0 \<and> heapStart example_heap_user < 32 \<and>
   32 < heapStart example_heap_user + allocsize example_heap_user"
proof -
  have nn: "32 \<noteq> NULL" by (simp add: NULL_def)
  from myAlloc_address [OF example_heap_user_inv, of 20] nn
  have "(32::int) mod 8 = 0 \<and> heapStart example_heap_user < 32 \<and>
        32 < heapStart example_heap_user + allocsize example_heap_user"
    unfolding myAlloc_example_user by simp
  with example_heap_user_inv myAlloc_example_user nn show ?thesis by blast
qed

lemma myFree_rejected:
  "ptr = NULL \<or> ptr mod 8 \<noteq> 0 \<or> ptr < heapStart s \<or> heapStart s + allocsize s < ptr \<or>
   \<not> is_alloc (mem s (ptr - sizeof_blockHeader)) \<Longrightarrow> myFree s ptr = (- 1, s)"
  by (auto simp: myFree_def Let_def int_of_ptr_aligned smod2_zero is_alloc_def)

lemma myFree_accepted:
  "\<not> (ptr = NULL \<or> ptr mod 8 \<noteq> 0 \<or> ptr < heapStart s \<or> heapStart s + allocsize s < ptr \<or>
      \<not> is_alloc (mem s (ptr - sizeof_blockHeader))) \<Longrightarrow> fst (myFree s ptr) = 0"
  by (auto simp: myFree_def Let_def int_of_ptr_aligned smod2_zero is_alloc_def)

text \<open>
  C5. \<open>myFree\<close> returns \<open>-1\<close> exactly when the address is \<open>NULL\<close>, or is not a multiple of 8,
  or lies below \<open>heapStart\<close> or above \<open>heapStart + allocsize\<close>, or the header before it has
  its a-bit clear; the state (so every word of memory) is then unchanged, and otherwise the
  result is 0. The upper bound of the program's test is inclusive; for a region whose start is
  4 modulo 8 and whose size is a multiple of 8, as \<open>myInit\<close> makes it, the rejected addresses
  are the same when the address of the end mark counts as outside.
\<close>

theorem myFree_failure_iff:
  "(fst (myFree s ptr) = - 1 \<longleftrightarrow>
      ptr = NULL \<or> ptr mod 8 \<noteq> 0 \<or> ptr < heapStart s \<or> heapStart s + allocsize s < ptr \<or>
      \<not> is_alloc (mem s (ptr - sizeof_blockHeader))) \<and>
   (fst (myFree s ptr) = - 1 \<longrightarrow> snd (myFree s ptr) = s) \<and>
   (fst (myFree s ptr) \<noteq> - 1 \<longrightarrow> fst (myFree s ptr) = 0) \<and>
   (heapStart s mod 8 = 4 \<and> allocsize s mod 8 = 0 \<longrightarrow>
      (fst (myFree s ptr) = - 1 \<longleftrightarrow>
         ptr = NULL \<or> ptr mod 8 \<noteq> 0 \<or> ptr < heapStart s \<or> heapStart s + allocsize s \<le> ptr \<or>
         \<not> is_alloc (mem s (ptr - sizeof_blockHeader))))"
proof -
  let ?R = "ptr = NULL \<or> ptr mod 8 \<noteq> 0 \<or> ptr < heapStart s \<or> heapStart s + allocsize s < ptr \<or>
      \<not> is_alloc (mem s (ptr - sizeof_blockHeader))"
  have iff: "fst (myFree s ptr) = - 1 \<longleftrightarrow> ?R"
    using myFree_rejected [of ptr s] myFree_accepted [of ptr s] by (cases ?R) simp_all
  have unch: "?R \<longrightarrow> snd (myFree s ptr) = s"
    using myFree_rejected [of ptr s] by auto
  have zero: "\<not> ?R \<longrightarrow> fst (myFree s ptr) = 0"
    using myFree_accepted [of ptr s] by blast
  have "heapStart s + allocsize s \<noteq> ptr"
    if "heapStart s mod 8 = 4" "allocsize s mod 8 = 0" "ptr mod 8 = 0"
  proof
    assume "heapStart s + allocsize s = ptr"
    then have "ptr mod 8 = (heapStart s mod 8 + allocsize s mod 8) mod 8"
      by (simp add: mod_add_eq)
    with that show False by simp
  qed
  then have strict: "heapStart s mod 8 = 4 \<and> allocsize s mod 8 = 0 \<longrightarrow>
      (?R \<longleftrightarrow> ptr = NULL \<or> ptr mod 8 \<noteq> 0 \<or> ptr < heapStart s \<or>
         heapStart s + allocsize s \<le> ptr \<or> \<not> is_alloc (mem s (ptr - sizeof_blockHeader)))"
    by (cases "heapStart s + allocsize s = ptr") auto
  show ?thesis
    unfolding iff by (intro conjI refl unch zero strict)
qed

theorem myFree_failure_iff_witness:
  "fst (myFree example_heap 48) = - 1 \<and> snd (myFree example_heap 48) = example_heap \<and>
   heapStart example_heap mod 8 = 4 \<and> allocsize example_heap mod 8 = 0 \<and>
   \<not> is_alloc (mem example_heap (48 - sizeof_blockHeader)) \<and>
   fst (myFree (example_heap\<lparr>mem := (mem example_heap)(44 := 25)\<rparr>) 48) = 0"
proof -
  have 1: "\<not> is_alloc (mem example_heap (48 - sizeof_blockHeader))"
    by (simp add: example_heap_def sizeof_blockHeader_def is_alloc_def)
  have 2: "heapStart example_heap mod 8 = 4 \<and> allocsize example_heap mod 8 = 0"
    by (simp add: example_heap_def)
  have 3: "\<not> (48 = NULL \<or> (48::int) mod 8 \<noteq> 0 \<or>
      48 < heapStart (example_heap\<lparr>mem := (mem example_heap)(44 := 25)\<rparr>) \<or>
      heapStart (example_heap\<lparr>mem := (mem example_heap)(44 := 25)\<rparr>) +
        allocsize (example_heap\<lparr>mem := (mem example_heap)(44 := 25)\<rparr>) < 48 \<or>
      \<not> is_alloc (mem (example_heap\<lparr>mem := (mem example_heap)(44 := 25)\<rparr>)
                     (48 - sizeof_blockHeader)))"
    by (simp add: example_heap_def sizeof_blockHeader_def is_alloc_def NULL_def)
  from myFree_failure_iff [of example_heap 48] 1
  have "fst (myFree example_heap 48) = - 1 \<and> snd (myFree example_heap 48) = example_heap"
    by blast
  moreover from myFree_failure_iff [of "example_heap\<lparr>mem := (mem example_heap)(44 := 25)\<rparr>" 48] 3
  have "fst (myFree (example_heap\<lparr>mem := (mem example_heap)(44 := 25)\<rparr>) 48) = 0"
    by blast
  ultimately show ?thesis using 1 2 by blast
qed

text \<open>The words written by an accepted call of \<open>myFree\<close> on a block with a valid header.\<close>

lemma myFree_words:
  assumes ok: "hdr_ok h" and al: "is_alloc h" and h: "mem s (ptr - 4) = h"
    and acc: "fst (myFree s ptr) = 0"
  shows "\<exists>m'. myFree s ptr = (0, s\<lparr>mem := m'\<rparr>) \<and> m' (ptr - 4) = h - 1 \<and>
           m' (ptr - 4 + bsize h) =
             (if mem s (ptr - 4 + bsize h) \<noteq> 1
              then mem s (ptr - 4 + bsize h) - (mem s (ptr - 4 + bsize h) AND 2) else 1) \<and>
           m' (ptr - 4 + bsize h - 4) = bsize h \<and>
           (\<forall>x. x \<noteq> ptr - 4 \<and> x \<noteq> ptr - 4 + bsize h \<and> x \<noteq> ptr - 4 + bsize h - 4 \<longrightarrow>
                m' x = mem s x)"
proof -
  define b where "b = ptr - 4"
  from ok have b8: "8 \<le> bsize h" by (rule hdr_ok_bsize)
  note ha = hdr_clear_alloc [OF ok al]
  have 5: "h - 1 - (h - 1) smod 8 = bsize h" using hdr_ok_smod8 [of "h - 1"] ha by simp
  define m1 where "m1 = (mem s)(b := h - 1)"
  define m2 where "m2 = (if m1 (b + bsize h) \<noteq> 1
     then m1(b + bsize h := m1 (b + bsize h) - (m1 (b + bsize h) AND 2)) else m1)"
  define m3 where "m3 = m2(b + bsize h - 4 := bsize h)"
  have guards: "\<not> (ptr = NULL \<or> int_of_ptr ptr smod 8 \<noteq> 0 \<or> ptr < heapStart s \<or>
      ptr > heapStart s + allocsize s \<or> mem s (ptr - sizeof_blockHeader) smod 2 = 0)"
    using acc by (auto simp: myFree_def Let_def split: if_splits)
  have "myFree s ptr = (0, s\<lparr>mem := m3\<rparr>)"
    using guards
    by (simp add: myFree_def Let_def sizeof_blockHeader_def b_def [symmetric] h [folded b_def] 5
        m1_def m2_def m3_def)
  moreover have "m3 b = h - 1" using b8 by (simp add: m3_def m2_def m1_def)
  moreover have "m1 (b + bsize h) = mem s (b + bsize h)" using b8 by (simp add: m1_def)
  then have "m3 (b + bsize h) =
      (if mem s (b + bsize h) \<noteq> 1 then mem s (b + bsize h) - (mem s (b + bsize h) AND 2) else 1)"
    by (simp add: m3_def m2_def)
  moreover have "m3 (b + bsize h - 4) = bsize h" by (simp add: m3_def)
  moreover have "\<forall>x. x \<noteq> b \<and> x \<noteq> b + bsize h \<and> x \<noteq> b + bsize h - 4 \<longrightarrow> m3 x = mem s x"
    by (simp add: m3_def m2_def m1_def)
  ultimately show ?thesis unfolding b_def by blast
qed

lemma clear_prev_sizes:
  "list_all hdr_ok post \<Longrightarrow> map bsize (clear_prev post) = map bsize post"
  by (cases post) (simp_all add: hdr_clear_prev)

lemma myFree_example_user:
  "myFree example_heap_user 8 =
     (0, example_heap_user\<lparr>mem := (mem example_heap_user)(4 := 26, 28 := 40, 24 := 24)\<rparr>)"
  by (simp add: myFree_def example_heap_user_def NULL_def int_of_ptr_def sizeof_blockHeader_def
      signed_modulo_int_def Let_def and2)

text \<open>
  C6. On a well-formed heap, whatever its payload words hold, \<open>myFree\<close> called with the
  payload address of an allocated block of the block list returns 0. The header of the block
  loses the a-bit and keeps size and p-bit; the header after the block, unless it is the end
  mark, loses the p-bit and keeps size and a-bit; the last word of the block becomes the
  footer holding the block size; no other word of memory and no global changes; the block
  list afterwards has the same blocks with the same sizes, so nothing was merged.
\<close>

theorem myFree_effect:
  assumes "heap_inv s (pre @ h # post)" "is_alloc h"
    "ptr = heapStart s + total pre + sizeof_blockHeader"
  shows "\<exists>s'. myFree s ptr = (0, s') \<and>
           (let hd = ptr - sizeof_blockHeader; nx = hd + bsize h in
              mem s hd = h \<and> mem s' hd = h - 1 \<and> \<not> is_alloc (mem s' hd) \<and>
              bsize (mem s' hd) = bsize h \<and> prev_alloc (mem s' hd) = prev_alloc h \<and>
              (if mem s nx = 1 then mem s' nx = 1
               else mem s' nx = mem s nx - (mem s nx AND 2) \<and> \<not> prev_alloc (mem s' nx) \<and>
                    bsize (mem s' nx) = bsize (mem s nx) \<and>
                    is_alloc (mem s' nx) = is_alloc (mem s nx)) \<and>
              mem s' (nx - sizeof_blockHeader) = bsize h \<and>
              (\<forall>x. x \<noteq> hd \<and> x \<noteq> nx \<and> x \<noteq> nx - sizeof_blockHeader \<longrightarrow> mem s' x = mem s x) \<and>
              heapStart s' = heapStart s \<and> allocsize s' = allocsize s \<and>
              allocated_once s' = allocated_once s \<and>
              heap_inv s' (pre @ (h - 1) # clear_prev post) \<and>
              map bsize (pre @ (h - 1) # clear_prev post) = map bsize (pre @ h # post))"
proof -
  have p: "ptr = heapStart s + total pre + 4" using assms(3) by (simp add: sizeof_blockHeader_def)
  from myFree_block [OF assms(1,2), folded p]
  obtain m' where d: "myFree s ptr = (0, s\<lparr>mem := m'\<rparr>)"
    "heap_inv (s\<lparr>mem := m'\<rparr>) (pre @ (h - 1) # clear_prev post)"
    by blast
  define s' where "s' = s\<lparr>mem := m'\<rparr>"
  define b where "b = ptr - 4"
  from assms(1) have c: "chain (mem s) (heapStart s) True (pre @ h # post)
      (heapStart s + allocsize s)" and en: "mem s (heapStart s + allocsize s) = 1"
    by (simp_all add: heap_inv_def)
  have b: "heapStart s + total pre = b" using p by (simp add: b_def)
  note cf = chain_focus [OF c, unfolded b]
  from cf(2) have hb: "mem s b = h" and ok: "hdr_ok h" by (simp_all add: block_at_def)
  note ha = hdr_clear_alloc [OF ok assms(2)]
  from d(1) have "fst (myFree s ptr) = 0" by simp
  from myFree_words [OF ok assms(2) hb [unfolded b_def] this, folded b_def]
  obtain m2 where m2: "myFree s ptr = (0, s\<lparr>mem := m2\<rparr>)" "m2 b = h - 1"
    "m2 (b + bsize h) = (if mem s (b + bsize h) \<noteq> 1
       then mem s (b + bsize h) - (mem s (b + bsize h) AND 2) else 1)"
    "m2 (b + bsize h - 4) = bsize h"
    "\<forall>x. x \<noteq> b \<and> x \<noteq> b + bsize h \<and> x \<noteq> b + bsize h - 4 \<longrightarrow> m2 x = mem s x"
    by blast
  from m2(1) d(1) have "mem (s\<lparr>mem := m2\<rparr>) = mem (s\<lparr>mem := m'\<rparr>)" by simp
  then have "m2 = m'" by simp
  note w = m2(2-5) [unfolded this]
  have nx: "if mem s (b + bsize h) = 1 then m' (b + bsize h) = 1
            else m' (b + bsize h) = mem s (b + bsize h) - (mem s (b + bsize h) AND 2) \<and>
                 \<not> prev_alloc (m' (b + bsize h)) \<and>
                 bsize (m' (b + bsize h)) = bsize (mem s (b + bsize h)) \<and>
                 is_alloc (m' (b + bsize h)) = is_alloc (mem s (b + bsize h))"
  proof (cases post)
    case Nil
    with cf(3) en have "mem s (b + bsize h) = 1" by simp
    with w(2) show ?thesis by simp
  next
    case (Cons g gs)
    with cf(3) have g: "mem s (b + bsize h) = g" "hdr_ok g" by (simp_all add: block_at_def)
    from hdr_clear_prev [OF g(2)] hdr_ok_not_end [OF g(2)] w(2) show ?thesis
      by (simp add: g(1))
  qed
  from cf(3) have "list_all hdr_ok post" by (rule chain_hdr_ok)
  then have sizes: "map bsize (pre @ (h - 1) # clear_prev post) = map bsize (pre @ h # post)"
    using ha by (simp add: clear_prev_sizes)
  have m: "mem s' = m'" by (simp add: s'_def)
  have a: "mem s b = h" "mem s' b = h - 1" "\<not> is_alloc (mem s' b)"
    "bsize (mem s' b) = bsize h" "prev_alloc (mem s' b) = prev_alloc h"
    unfolding m w(1) using hb ha by simp_all
  have e: "heapStart s' = heapStart s" "allocsize s' = allocsize s"
    "allocated_once s' = allocated_once s" by (simp_all add: s'_def)
  have nx': "if mem s (b + bsize h) = 1 then mem s' (b + bsize h) = 1
            else mem s' (b + bsize h) = mem s (b + bsize h) - (mem s (b + bsize h) AND 2) \<and>
                 \<not> prev_alloc (mem s' (b + bsize h)) \<and>
                 bsize (mem s' (b + bsize h)) = bsize (mem s (b + bsize h)) \<and>
                 is_alloc (mem s' (b + bsize h)) = is_alloc (mem s (b + bsize h))"
    unfolding m by (rule nx)
  have ft: "mem s' (b + bsize h - 4) = bsize h" unfolding m by (rule w(3))
  have fr: "\<forall>x. x \<noteq> b \<and> x \<noteq> b + bsize h \<and> x \<noteq> b + bsize h - 4 \<longrightarrow> mem s' x = mem s x"
    unfolding m by (rule w(4))
  have iv: "heap_inv s' (pre @ (h - 1) # clear_prev post)" unfolding s'_def by (rule d(2))
  have ret: "myFree s ptr = (0, s')" unfolding s'_def by (rule d(1))
  have "myFree s ptr = (0, s') \<and>
           (let hd = ptr - sizeof_blockHeader; nx = hd + bsize h in
              mem s hd = h \<and> mem s' hd = h - 1 \<and> \<not> is_alloc (mem s' hd) \<and>
              bsize (mem s' hd) = bsize h \<and> prev_alloc (mem s' hd) = prev_alloc h \<and>
              (if mem s nx = 1 then mem s' nx = 1
               else mem s' nx = mem s nx - (mem s nx AND 2) \<and> \<not> prev_alloc (mem s' nx) \<and>
                    bsize (mem s' nx) = bsize (mem s nx) \<and>
                    is_alloc (mem s' nx) = is_alloc (mem s nx)) \<and>
              mem s' (nx - sizeof_blockHeader) = bsize h \<and>
              (\<forall>x. x \<noteq> hd \<and> x \<noteq> nx \<and> x \<noteq> nx - sizeof_blockHeader \<longrightarrow> mem s' x = mem s x) \<and>
              heapStart s' = heapStart s \<and> allocsize s' = allocsize s \<and>
              allocated_once s' = allocated_once s \<and>
              heap_inv s' (pre @ (h - 1) # clear_prev post) \<and>
              map bsize (pre @ (h - 1) # clear_prev post) = map bsize (pre @ h # post))"
    unfolding Let_def sizeof_blockHeader_def b_def [symmetric]
    by (rule conjI ret a e nx' ft fr iv sizes)+
  then show ?thesis by (rule exI [where x = s'])
qed

theorem myFree_effect_witness:
  "heap_inv example_heap_user ([] @ 27 # [42]) \<and> is_alloc 27 \<and>
   8 = heapStart example_heap_user + total [] + sizeof_blockHeader \<and>
   myFree example_heap_user 8 =
     (0, example_heap_user\<lparr>mem := (mem example_heap_user)(4 := 26, 28 := 40, 24 := 24)\<rparr>) \<and>
   heap_inv (example_heap_user\<lparr>mem := (mem example_heap_user)(4 := 26, 28 := 40, 24 := 24)\<rparr>)
     [26, 40]"
proof -
  have 1: "heap_inv example_heap_user ([] @ 27 # [42])" using example_heap_user_inv by simp
  have 2: "is_alloc 27" by (simp add: is_alloc_def)
  have 3: "8 = heapStart example_heap_user + total [] + sizeof_blockHeader"
    by (simp add: example_heap_user_def sizeof_blockHeader_def)
  from myFree_effect [OF 1 2 3]
  have "heap_inv (example_heap_user\<lparr>mem := (mem example_heap_user)(4 := 26, 28 := 40, 24 := 24)\<rparr>)
     ([] @ (27 - 1) # clear_prev [42])"
    unfolding myFree_example_user Let_def by blast
  then have "heap_inv
     (example_heap_user\<lparr>mem := (mem example_heap_user)(4 := 26, 28 := 40, 24 := 24)\<rparr>) [26, 40]"
    by (simp add: and2)
  with 1 2 3 myFree_example_user show ?thesis by blast
qed

text \<open>
  C8. The specification has a failing \<open>myInit\<close> leave \<open>allocsize\<close> as it was. The program
  assigns \<open>allocsize\<close> before it calls \<open>open\<close> and \<open>mmap\<close> and does not restore it when they
  fail: with a page size of 4096 and a failing \<open>mmap\<close>, \<open>myInit(1)\<close> returns \<open>-1\<close> and leaves
  \<open>allocsize\<close> at 4096 instead of 0, while \<open>heapStart\<close> is still \<open>NULL\<close>.
\<close>

theorem myInit_failed_mmap_allocsize:
  "fst (myInit os_no_memory initial_heap 1) = - 1 \<and>
   allocsize (snd (myInit os_no_memory initial_heap 1)) = 4096 \<and>
   allocsize initial_heap = 0 \<and>
   heapStart (snd (myInit os_no_memory initial_heap 1)) = NULL"
  by (simp add: myInit_def os_no_memory_def initial_heap_def Let_def signed_modulo_int_def
      MAP_FAILED_def wrap32_def)

text \<open>The two early failure paths of \<open>myInit\<close> do leave the whole state as it was.\<close>

lemma myInit_early_failure:
  "allocated_once s \<noteq> 0 \<or> n \<le> 0 \<Longrightarrow> myInit os s n = (- 1, s)"
  by (auto simp: myInit_def Let_def)

lemma mk_header_free:
  assumes "hdr_ok h" "\<not> is_alloc h"
  shows "mk_header (bsize h + t) (prev_alloc h) False = h + t"
proof -
  from assms(1) obtain q r where "h = 8 * q + r" "1 \<le> q" "r = 0 \<or> r = 1 \<or> r = 2 \<or> r = 3"
    using hdr_ok_split by blast
  with assms(2) show ?thesis
    by (auto simp: flags_mod8 mk_header_def bsize_def)
qed

lemma merge_coalesced: "list_all hdr_ok hs \<Longrightarrow> merge hs = coalesced hs"
proof (induction hs rule: merge.induct)
  case 1
  show ?case by simp
next
  case (2 h)
  then show ?case using mk_header_free [of h 0] by simp
next
  case (3 h1 h2 hs)
  from "3.prems" have ok: "hdr_ok h1" "hdr_ok h2" "list_all hdr_ok hs" by simp_all
  show ?case
  proof (cases "is_alloc h1 \<or> is_alloc h2")
    case True
    from "3.IH"(1) [OF True] ok have IH: "merge (h2 # hs) = coalesced (h2 # hs)" by simp
    show ?thesis
    proof (cases "is_alloc h1")
      case True
      with IH show ?thesis by simp
    next
      case False
      with True have a2: "is_alloc h2" by simp
      from False a2 IH mk_header_free [OF ok(1) False, of 0] show ?thesis
        by (simp add: is_free_def)
    qed
  next
    case False
    then have f: "\<not> is_alloc h1" "\<not> is_alloc h2" by simp_all
    have ok': "list_all hdr_ok ((h1 + bsize h2) # hs)"
      using ok hdr_add_bsize(4) [OF ok(1,2)] by simp
    from "3.IH"(2) [OF False ok']
    have IH: "merge ((h1 + bsize h2) # hs) = coalesced ((h1 + bsize h2) # hs)" .
    have "coalesced ((h1 + bsize h2) # hs) = coalesced (h1 # h2 # hs)"
      using f by (simp add: hdr_add_bsize is_free_def add.assoc)
    with IH f show ?thesis by simp
  qed
qed

text \<open>Every word the loop writes lies in a run of two or more adjacent free blocks.\<close>

lemma touched_in_run:
  "list_all hdr_ok hs \<Longrightarrow> x \<in> touched a hs \<Longrightarrow>
   \<exists>pre r post. hs = pre @ r @ post \<and> 2 \<le> length r \<and> list_all is_free r \<and>
      a + total pre \<le> x \<and> x < a + total pre + total r"
proof (induction a hs rule: touched.induct)
  case (1 a)
  then show ?case by simp
next
  case (2 a h)
  then show ?case by simp
next
  case (3 a h1 h2 hs)
  from "3.prems"(1) have ok: "hdr_ok h1" "hdr_ok h2" "list_all hdr_ok hs" by simp_all
  note b8 = hdr_ok_bsize [OF ok(1)] hdr_ok_bsize [OF ok(2)]
  show ?case
  proof (cases "is_alloc h1 \<or> is_alloc h2")
    case True
    with "3.prems"(2) have "x \<in> touched (a + bsize h1) (h2 # hs)" by simp
    from "3.IH"(1) [OF True _ this] ok
    obtain pre r post where r: "h2 # hs = pre @ r @ post" "2 \<le> length r" "list_all is_free r"
      "a + bsize h1 + total pre \<le> x" "x < a + bsize h1 + total pre + total r"
      by auto
    then have "h1 # h2 # hs = (h1 # pre) @ r @ post \<and> 2 \<le> length r \<and> list_all is_free r \<and>
      a + total (h1 # pre) \<le> x \<and> x < a + total (h1 # pre) + total r"
      by simp
    then show ?thesis by blast
  next
    case False
    then have f: "is_free h1" "is_free h2" by (simp_all add: is_free_def)
    have ok': "list_all hdr_ok ((h1 + bsize h2) # hs)"
      using ok hdr_add_bsize(4) [OF ok(1,2)] by simp
    from "3.prems"(2) False
    consider "x = a" | "x = a + bsize h1 + bsize h2 - 4" | "x \<in> touched a ((h1 + bsize h2) # hs)"
      by auto
    then show ?thesis
    proof cases
      case 1
      with f b8 have "h1 # h2 # hs = [] @ [h1, h2] @ hs \<and> 2 \<le> length [h1, h2] \<and>
        list_all is_free [h1, h2] \<and> a + total [] \<le> x \<and> x < a + total [] + total [h1, h2]"
        by simp
      then show ?thesis by blast
    next
      case 2
      with f b8 have "h1 # h2 # hs = [] @ [h1, h2] @ hs \<and> 2 \<le> length [h1, h2] \<and>
        list_all is_free [h1, h2] \<and> a + total [] \<le> x \<and> x < a + total [] + total [h1, h2]"
        by simp
      then show ?thesis by blast
    next
      case 3
      from "3.IH"(2) [OF False ok' 3]
      obtain pre r post where r: "(h1 + bsize h2) # hs = pre @ r @ post" "2 \<le> length r"
        "list_all is_free r" "a + total pre \<le> x" "x < a + total pre + total r"
        by blast
      show ?thesis
      proof (cases pre)
        case Nil
        with r(1,2) obtain r' where r': "r = (h1 + bsize h2) # r'" "hs = r' @ post"
          by (cases r) auto
        with r Nil f have "h1 # h2 # hs = [] @ (h1 # h2 # r') @ post \<and>
          2 \<le> length (h1 # h2 # r') \<and> list_all is_free (h1 # h2 # r') \<and>
          a + total [] \<le> x \<and> x < a + total [] + total (h1 # h2 # r')"
          by (simp add: hdr_add_bsize add.assoc)
        then show ?thesis by blast
      next
        case (Cons g pre')
        with r(1) have g: "g = h1 + bsize h2" "hs = pre' @ r @ post" by simp_all
        with r Cons have "h1 # h2 # hs = (h1 # h2 # pre') @ r @ post \<and> 2 \<le> length r \<and>
          list_all is_free r \<and> a + total (h1 # h2 # pre') \<le> x \<and>
          x < a + total (h1 # h2 # pre') + total r"
          by (simp add: hdr_add_bsize add.assoc)
        then show ?thesis by blast
      qed
    qed
  qed
qed

lemma coalesce_inv:
  assumes "heap_inv s hs"
  shows "\<exists>m'. coalesce s = Some (1, s\<lparr>mem := m'\<rparr>) \<and> heap_inv (s\<lparr>mem := m'\<rparr>) (merge hs) \<and>
              (\<forall>x. x \<notin> touched (heapStart s) hs \<longrightarrow> m' x = mem s x)"
proof -
  from assms have c: "chain (mem s) (heapStart s) True hs (heapStart s + allocsize s)"
    and en: "mem s (heapStart s + allocsize s) = 1"
    and a: "region_ok s"
    by (simp_all add: heap_inv_def)
  from coalesce_loop_chain [OF c en, of 0]
  obtain m' where m': "coalesce_loop (mem s) (heapStart s) 0 = Some m'"
    "chain m' (heapStart s) True (merge hs) (heapStart s + allocsize s)"
    "m' (heapStart s + allocsize s) = 1"
    "\<forall>x. x \<notin> touched (heapStart s) hs \<longrightarrow> m' x = mem s x"
    by blast
  have "coalesce s = Some (1, s\<lparr>mem := m'\<rparr>)" by (simp add: coalesce_def m'(1))
  moreover have "heap_inv (s\<lparr>mem := m'\<rparr>) (merge hs)"
    using m'(2,3) a by (simp add: heap_inv_def)
  ultimately show ?thesis using m'(4) by blast
qed

lemma example_heap_48_inv: "heap_inv example_heap_48 [18, 24, 8]"
  by (simp add: heap_inv_def region_ok_def example_heap_48_def block_at_def hdr_ok_def bsize_def
      is_alloc_def prev_alloc_def)

lemma coalesced_example: "coalesced [18, 24, 8] = [50]"
  by (simp add: is_free_def is_alloc_def prev_alloc_def mk_header_def bsize_def)

text \<open>
  C3. On a well-formed heap \<open>coalesce\<close> returns 1, and the block list afterwards is the old
  one with every maximal run of adjacent free blocks replaced by one free block of the summed
  size with the p-bit of the run's first block (\<open>coalesced\<close>); being a block of a well-formed
  heap, the merged block has its footer, holding the merged size, in its last word. Allocated
  blocks and free blocks without a free neighbour are left as they are: every word of memory
  that changes lies inside a run of two or more adjacent free blocks.
\<close>

theorem coalesce_merges_runs:
  assumes "heap_inv s hs"
  shows "\<exists>s'. coalesce s = Some (1, s') \<and> heap_inv s' (coalesced hs) \<and>
           heapStart s' = heapStart s \<and> allocsize s' = allocsize s \<and>
           (\<forall>x. mem s' x \<noteq> mem s x \<longrightarrow>
              (\<exists>pre r post. hs = pre @ r @ post \<and> 2 \<le> length r \<and> list_all is_free r \<and>
                 heapStart s + total pre \<le> x \<and> x < heapStart s + total pre + total r))"
proof -
  from assms have ok: "list_all hdr_ok hs" by (auto simp: heap_inv_def dest: chain_hdr_ok)
  from coalesce_inv [OF assms]
  obtain m' where m': "coalesce s = Some (1, s\<lparr>mem := m'\<rparr>)" "heap_inv (s\<lparr>mem := m'\<rparr>) (merge hs)"
    "\<forall>x. x \<notin> touched (heapStart s) hs \<longrightarrow> m' x = mem s x"
    by blast
  have "\<forall>x. mem (s\<lparr>mem := m'\<rparr>) x \<noteq> mem s x \<longrightarrow>
      (\<exists>pre r post. hs = pre @ r @ post \<and> 2 \<le> length r \<and> list_all is_free r \<and>
         heapStart s + total pre \<le> x \<and> x < heapStart s + total pre + total r)"
  proof (intro allI impI)
    fix x assume "mem (s\<lparr>mem := m'\<rparr>) x \<noteq> mem s x"
    with m'(3) have "x \<in> touched (heapStart s) hs" by auto
    with ok show "\<exists>pre r post. hs = pre @ r @ post \<and> 2 \<le> length r \<and> list_all is_free r \<and>
         heapStart s + total pre \<le> x \<and> x < heapStart s + total pre + total r"
      by (rule touched_in_run)
  qed
  moreover have "heap_inv (s\<lparr>mem := m'\<rparr>) (coalesced hs)"
    using m'(2) merge_coalesced [OF ok] by simp
  ultimately show ?thesis
    using m'(1) by (intro exI [of _ "s\<lparr>mem := m'\<rparr>"]) simp
qed

theorem coalesce_merges_runs_witness:
  "heap_inv example_heap_48 [18, 24, 8] \<and>
   (\<exists>s'. coalesce example_heap_48 = Some (1, s') \<and> heap_inv s' [50] \<and>
         mem s' 4 = 50 \<and> mem s' 48 = 48 \<and> mem s' 52 = 1)"
proof -
  from coalesce_merges_runs [OF example_heap_48_inv]
  obtain s' where s': "coalesce example_heap_48 = Some (1, s')" "heap_inv s' [50]"
    "heapStart s' = heapStart example_heap_48" "allocsize s' = allocsize example_heap_48"
    unfolding coalesced_example by blast
  from s'(2) have "mem s' 4 = 50 \<and> mem s' 48 = 48 \<and> mem s' 52 = 1"
    unfolding heap_inv_def s'(3,4)
    by (simp add: example_heap_48_def block_at_def bsize_def is_alloc_def)
  with s'(1,2) example_heap_48_inv show ?thesis by blast
qed

lemma round_up_page:
  assumes n: "0 < (n::int)" and ps: "0 < ps"
  shows "(n + (ps - n smod ps) smod ps) mod ps = 0" "ps \<le> n + (ps - n smod ps) smod ps"
    "n + (ps - n smod ps) smod ps < n + ps"
proof -
  have sm: "x smod y = x mod y" if "0 < x" "0 < y" for x y :: int
    using that by (simp add: signed_modulo_int_def sgn_if)
  have 1: "n smod ps = n mod ps" using n ps by (rule sm)
  have r: "0 \<le> n mod ps" "n mod ps < ps" using ps by simp_all
  then have "0 < ps - n mod ps" by simp
  then have 2: "(ps - n mod ps) smod ps = (ps - n mod ps) mod ps"
    using ps by (rule sm)
  have 3: "(n + (ps - n mod ps) mod ps) mod ps = 0"
  proof -
    have d: "ps * (n div ps + 1) = ps * (n div ps) + ps"
      by (simp only: distrib_left mult_1_right)
    have "ps * (n div ps) + n mod ps = n" by (rule mult_div_mod_eq)
    with d have e: "n + (ps - n mod ps) = ps * (n div ps + 1)" by linarith
    have A: "(n + (ps - n mod ps)) mod ps = 0" by (simp only: e mod_mult_self1_is_0)
    have B: "(n + (ps - n mod ps) mod ps) mod ps = (n + (ps - n mod ps)) mod ps"
      by (rule mod_add_right_eq)
    show ?thesis by (rule trans [OF B A])
  qed
  show "(n + (ps - n smod ps) smod ps) mod ps = 0" unfolding 1 2 by (rule 3)
  have nn: "0 \<le> (ps - n mod ps) mod ps" using ps by simp
  with n have pos: "0 < n + (ps - n mod ps) mod ps" by simp
  have "ps dvd n + (ps - n mod ps) mod ps" using 3 by (simp add: dvd_eq_mod_eq_0)
  from this pos have "ps \<le> n + (ps - n mod ps) mod ps" by (rule zdvd_imp_le)
  then show "ps \<le> n + (ps - n smod ps) smod ps" unfolding 1 2 .
  have "(ps - n mod ps) mod ps < ps" using ps by simp
  then show "n + (ps - n smod ps) smod ps < n + ps" unfolding 1 2 by simp
qed

lemma myInit_rejects:
  "allocated_once s \<noteq> 0 \<or> n \<le> 0 \<or> os_open os = - 1 \<or> os_mmap os = MAP_FAILED \<Longrightarrow>
   fst (myInit os s n) = - 1"
  by (auto simp: myInit_def Let_def)

lemma myInit_guards:
  assumes "fst (myInit os s n) = 0"
  shows "allocated_once s = 0 \<and> 0 < n \<and> os_open os \<noteq> - 1 \<and> os_mmap os \<noteq> MAP_FAILED"
proof (rule ccontr)
  assume "\<not> ?thesis"
  then have "allocated_once s \<noteq> 0 \<or> n \<le> 0 \<or> os_open os = - 1 \<or> os_mmap os = MAP_FAILED"
    by auto
  then have "fst (myInit os s n) = - 1" by (rule myInit_rejects)
  with assms show False by simp
qed

text \<open>The globals and the memory after a successful \<open>myInit\<close>.\<close>

lemma myInit_success:
  assumes g: "allocated_once s0 = 0" "0 < n" "os_open os \<noteq> - 1" "os_mmap os \<noteq> MAP_FAILED"
  shows "heapStart (snd (myInit os s0 n)) = os_mmap os + 4"
    "allocsize (snd (myInit os s0 n)) =
       wrap32 (wrap32 (n + (os_pagesize os - n smod os_pagesize os) smod os_pagesize os) - 8)"
    "mem (snd (myInit os s0 n)) =
     ((\<lambda>a. if os_mmap os \<le> a \<and>
               a < os_mmap os + wrap32 (n + (os_pagesize os - n smod os_pagesize os) smod os_pagesize os)
            then 0 else mem s0 a)
       (os_mmap os + 4 + wrap32 (wrap32 (n + (os_pagesize os - n smod os_pagesize os) smod os_pagesize os) - 8) := 1,
        os_mmap os + 4 := wrap32 (wrap32 (n + (os_pagesize os - n smod os_pagesize os) smod os_pagesize os) - 8),
        os_mmap os + 4 := wrap32 (wrap32 (n + (os_pagesize os - n smod os_pagesize os) smod os_pagesize os) - 8) + 2,
        os_mmap os + 4 + wrap32 (wrap32 (n + (os_pagesize os - n smod os_pagesize os) smod os_pagesize os) - 8) - 4 :=
          wrap32 (wrap32 (n + (os_pagesize os - n smod os_pagesize os) smod os_pagesize os) - 8)))"
  using g by (simp_all add: myInit_def Let_def sizeof_blockHeader_def cong: if_cong)

text \<open>The state after a successful \<open>myInit\<close>: one free block that spans the usable size.\<close>

lemma myInit_inv:
  assumes os: "page_provider os n" and init: "myInit os s0 n = (0, s)"
  shows "heap_inv s [allocsize s + 2]" "8 \<le> allocsize s" "allocsize s mod 8 = 0"
    "heapStart s = os_mmap os + 4"
proof -
  define ps where "ps = os_pagesize os"
  define A where "A = n + (ps - n smod ps) smod ps"
  define a where "a = os_mmap os + 4"
  define S where "S = A - 8"
  from os have p: "8 < ps" "ps mod 8 = 0" "0 \<le> os_mmap os" "os_mmap os mod ps = 0"
    "n + ps \<le> 2147483648" "os_mmap os + n + ps \<le> 4294967296"
    by (simp_all add: page_provider_def ps_def)
  from init have "fst (myInit os s0 n) = 0" by simp
  then have g: "allocated_once s0 = 0" "0 < n" "os_open os \<noteq> - 1" "os_mmap os \<noteq> MAP_FAILED"
    by (simp_all add: myInit_guards)
  from p(1) have ps0: "0 < ps" by simp
  note ru = round_up_page [OF g(2) ps0, folded A_def]
  obtain c where c: "ps = 8 * c" using p(2) by (auto simp: mod_eq_0_iff_dvd)
  from ru(1) obtain d where d: "A = ps * d" by (auto simp: mod_eq_0_iff_dvd)
  define q where "q = c * d - 1"
  have A8: "A = 8 * (q + 1)" by (simp add: d c q_def)
  have c2: "2 \<le> c" using p(1) c by simp
  have "16 \<le> ps" using c c2 by simp
  with ru(2) have A16: "16 \<le> A" by simp
  have Amax: "A \<le> 2147483647" using ru(3) p(5) by simp
  have S8: "8 \<le> S" using A16 by (simp add: S_def)
  have Sm: "S = 8 * q" by (simp add: S_def A8)
  have q1: "1 \<le> q" using S8 Sm by simp
  have Smax: "S \<le> 2147483635" using Amax unfolding S_def A8 by presburger
  have w1: "wrap32 A = A" using A16 Amax by (simp add: wrap32_id)
  have w2: "wrap32 (A - 8) = S" using A16 Amax by (simp add: wrap32_id S_def)
  have sn: "s = snd (myInit os s0 n)" unfolding init by simp
  note ms = myInit_success [OF g, folded ps_def, folded A_def, unfolded w1 w2, folded sn a_def]
  have m1: "mem s a = S + 2" using S8 by (simp add: ms(3))
  have m2: "mem s (a + S - 4) = S" by (simp add: ms(3))
  have m3: "mem s (a + S) = 1" using S8 by (simp add: ms(3))
  show "8 \<le> allocsize s" unfolding ms(2) by (rule S8)
  show "allocsize s mod 8 = 0" unfolding ms(2) Sm by simp
  show "heapStart s = os_mmap os + 4" unfolding ms(1) a_def ..
  have ok: "hdr_ok (S + 2)" using q1 unfolding Sm by (simp add: hdr_ok_def)
  have bs: "bsize (S + 2) = S" unfolding Sm by (simp add: bsize_def)
  have fl: "\<not> is_alloc (S + 2)" "prev_alloc (S + 2)" unfolding Sm by (simp_all add: flags_mod8)
  have "block_at (mem s) a True (S + 2)"
    unfolding block_at_def bs using m1 m2 ok fl by simp
  moreover have "a mod 8 = 4"
  proof -
    from p(4) obtain j where "os_mmap os = ps * j" by (auto simp: mod_eq_0_iff_dvd)
    then have "a = 8 * (c * j) + 4" by (simp add: a_def c)
    then show ?thesis by simp
  qed
  moreover have "0 \<le> a" using p(3) by (simp add: a_def)
  moreover have "a + S < 4294967296" using ru(3) p(6) by (simp add: a_def S_def)
  ultimately show "heap_inv s [allocsize s + 2]"
    unfolding heap_inv_def region_ok_def ms(1) ms(2) using m3 Smax by (simp add: bs)
qed

lemma os_4096_provider: "page_provider os_4096 100"
  by (simp add: page_provider_def os_4096_def)

lemma myInit_example: "myInit os_4096 initial_heap 100 = (0, fresh_heap_4096)"
  by (simp add: myInit_def os_4096_def initial_heap_def fresh_heap_4096_def Let_def
      signed_modulo_int_def MAP_FAILED_def sizeof_blockHeader_def NULL_def wrap32_def
      cong: if_cong)

lemma needed_size_le:
  assumes "0 < n" "S mod 8 = 0" "n \<le> 2147483635"
  shows "needed_size n \<le> S \<longleftrightarrow> n + 4 \<le> S"
proof -
  note nb = needed_size_bounds [OF assms(1,3)]
  from nb(2) obtain a where a: "needed_size n = 8 * a" by (auto simp: mod_eq_0_iff_dvd)
  from assms(2) obtain b where b: "S = 8 * b" by (auto simp: mod_eq_0_iff_dvd)
  show ?thesis
  proof
    assume "needed_size n \<le> S"
    with nb(3) show "n + 4 \<le> S" by simp
  next
    assume "n + 4 \<le> S"
    with nb(4) have "8 * a < 8 * b + 8" by (simp add: a b)
    then show "needed_size n \<le> S" by (simp add: a b)
  qed
qed

text \<open>
  C10. On the heap a successful \<open>myInit\<close> leaves, with usable size \<open>S = allocsize\<close>,
  \<open>myAlloc n\<close> returns for every \<open>n\<close>, and its result is not \<open>NULL\<close> exactly when \<open>0 < n\<close> and
  \<open>n \<le> S - 4\<close>, although the first test of \<open>myAlloc\<close> lets every \<open>n\<close> up to \<open>S\<close> pass.
\<close>

theorem fresh_heap_largest_request:
  assumes "page_provider os sz" "myInit os s0 sz = (0, s)"
  shows "\<exists>r s'. myAlloc s n = Some (r, s') \<and> (r \<noteq> NULL \<longleftrightarrow> 0 < n \<and> n \<le> allocsize s - 4)"
proof (cases "0 < n \<and> n \<le> allocsize s")
  case False
  then have "myAlloc s n = Some (NULL, s)" by (auto simp: myAlloc_def)
  with False show ?thesis by auto
next
  case True
  then have n: "0 < n" "n \<le> allocsize s" by simp_all
  note iv = myInit_inv [OF assms]
  have bs: "bsize (allocsize s + 2) = allocsize s"
  proof -
    from iv(3) obtain b where "allocsize s = 8 * b" by (auto simp: mod_eq_0_iff_dvd)
    then show ?thesis by (simp add: bsize_def)
  qed
  from iv(1) have fr: "\<not> is_alloc (allocsize s + 2)"
    using iv(3) by (simp add: is_alloc_def) presburger
  have fit: "fits (needed_size n) (allocsize s + 2) \<longleftrightarrow> n \<le> allocsize s - 4"
    using needed_size_le [OF n(1) iv(3) heap_inv_request [OF iv(1) n(2)]] fr
    by (auto simp: fits_def bs)
  from iv(1) have a0: "0 \<le> heapStart s" by (simp add: heap_inv_def region_ok_def)
  from myAlloc_inv [OF iv(1) n]
  consider (none) "\<forall>j < length [allocsize s + 2]. \<not> fits (needed_size n) ([allocsize s + 2] ! j)"
      "myAlloc s n = Some (NULL, s)"
    | (some) i m' where "best_fit (needed_size n) [allocsize s + 2] i"
        "myAlloc s n = Some (block_addr (heapStart s) [allocsize s + 2] i + 4, s\<lparr>mem := m'\<rparr>)"
    by blast
  then show ?thesis
  proof cases
    case none
    from none(1) have "\<not> fits (needed_size n) (allocsize s + 2)" by simp
    with fit none(2) show ?thesis by simp
  next
    case some
    from some(1) have i: "i = 0" "fits (needed_size n) (allocsize s + 2)"
      by (auto simp: best_fit_def)
    with fit have "n \<le> allocsize s - 4" by simp
    moreover have "block_addr (heapStart s) [allocsize s + 2] i + 4 \<noteq> NULL"
      using a0 by (simp add: i(1) block_addr_def NULL_def)
    ultimately show ?thesis using some(2) n(1) by simp
  qed
qed

theorem fresh_heap_largest_request_witness:
  "page_provider os_4096 100 \<and> myInit os_4096 initial_heap 100 = (0, fresh_heap_4096) \<and>
   allocsize fresh_heap_4096 = 4088 \<and>
   (\<exists>r s'. myAlloc fresh_heap_4096 4084 = Some (r, s') \<and> r \<noteq> NULL) \<and>
   (\<exists>s'. myAlloc fresh_heap_4096 4085 = Some (NULL, s'))"
proof -
  have al: "allocsize fresh_heap_4096 = 4088" by (simp add: fresh_heap_4096_def)
  from fresh_heap_largest_request [OF os_4096_provider myInit_example, of 4084]
  have 1: "\<exists>r s'. myAlloc fresh_heap_4096 4084 = Some (r, s') \<and> r \<noteq> NULL"
    unfolding al by simp
  from fresh_heap_largest_request [OF os_4096_provider myInit_example, of 4085]
  have 2: "\<exists>s'. myAlloc fresh_heap_4096 4085 = Some (NULL, s')"
    unfolding al by simp
  from 1 2 os_4096_provider myInit_example al show ?thesis by blast
qed

end
